theory Spec2Isabelle
  imports Main "HOL-Library.Sublist"
begin

section \<open>The repeat-graph driver (src/repeat_graph/main.cpp)\<close>

text \<open>
  The source file is the driver of the repeat-graph stage: \<open>parseArgs\<close> reads the command
  line and \<open>main\<close> calls the components (sequence containers, repeat graph, graph
  processor, read aligner, multiplicity inferer, repeat resolver, contig extender, output
  generator) one after the other. The components themselves are declared in headers that
  are not part of the file; they appear here as the calls \<open>main\<close> makes on them, recorded
  in the order in which they are made, and as an environment that says what each call
  returns and whether it raises.
\<close>

subsection \<open>The C library: atoi and getopt\<close>

definition isspace :: "char \<Rightarrow> bool" where
  "isspace c = (c = CHR '' '' \<or> (9::nat) \<le> of_char c \<and> of_char c \<le> (13::nat))"

definition isdigit :: "char \<Rightarrow> bool" where
  "isdigit c = ((48::nat) \<le> of_char c \<and> of_char c \<le> (57::nat))"

fun digits :: "int \<Rightarrow> string \<Rightarrow> int" where
  "digits acc [] = acc"
| "digits acc (c # cs) =
     (if isdigit c then digits (10 * acc + (of_char c - 48)) cs else acc)"

text \<open>
  \<open>atoi\<close> is \<open>(int) strtol (s, NULL, 10)\<close>: white space, an optional sign, then the longest
  run of decimal digits; no digits give 0. A value outside \<open>long\<close> saturates in \<open>strtol\<close>
  and the conversion to a 32-bit \<open>int\<close> keeps the low 32 bits (ISO C leaves the
  out-of-range case undefined; this is what glibc does).
\<close>

definition strtol :: "string \<Rightarrow> int" where
  "strtol s =
     (let v = (case dropWhile isspace s of
                 [] \<Rightarrow> 0
               | c # cs \<Rightarrow>
                   if c = CHR ''-'' then - digits 0 cs
                   else if c = CHR ''+'' then digits 0 cs
                   else digits 0 (c # cs))
      in max (- (2 ^ 63)) (min (2 ^ 63 - 1) v))"

definition int_of_long :: "int \<Rightarrow> int" where
  "int_of_long v = (v + 2 ^ 31) mod 2 ^ 32 - 2 ^ 31"

definition atoi :: "string \<Rightarrow> int" where
  "atoi s = int_of_long (strtol s)"

text \<open>The conversion of an \<open>int\<close> to the 64-bit unsigned \<open>size_t\<close>.\<close>

definition size_t_of_int :: "int \<Rightarrow> nat" where
  "size_t_of_int v = nat (v mod 2 ^ 64)"

text \<open>The option string of \<open>parseArgs\<close>.\<close>

definition optString :: string where
  "optString = ''l:t:k:v:hdg''"

text \<open>
  Looking an option character up in an option string: \<open>None\<close> when it is no option,
  \<open>Some True\<close> when it is followed by a colon (it takes an argument).
\<close>

fun lookup_opt :: "string \<Rightarrow> char \<Rightarrow> bool option" where
  "lookup_opt [] c = None"
| "lookup_opt (x # xs) c =
     (if x = c then Some (case xs of [] \<Rightarrow> False | y # _ \<Rightarrow> y = CHR '':'')
      else lookup_opt xs c)"

text \<open>
  The results of \<open>getopt\<close> on the characters of one argument after its leading dash.
  Each result is the returned character with \<open>optarg\<close> (empty when \<open>getopt\<close> sets none).
  An unknown character and an option whose argument is missing give \<open>?\<close>. An option
  that takes an argument takes the rest of the word, or else the next word, given as
  \<open>nxt\<close>; the flag returned says whether that next word was used.
\<close>

fun cluster :: "string \<Rightarrow> string option \<Rightarrow> (char \<times> string) list \<times> bool" where
  "cluster [] nxt = ([], False)"
| "cluster (c # cs) nxt =
     (if c = CHR '':'' then
        (let (rs, used) = cluster cs nxt in ((CHR ''?'', []) # rs, used))
      else case lookup_opt optString c of
        None \<Rightarrow> (let (rs, used) = cluster cs nxt in ((CHR ''?'', []) # rs, used))
      | Some False \<Rightarrow> (let (rs, used) = cluster cs nxt in ((c, []) # rs, used))
      | Some True \<Rightarrow>
          (if cs \<noteq> [] then ([(c, cs)], False)
           else case nxt of
                  Some a \<Rightarrow> ([(c, a)], True)
                | None \<Rightarrow> ([(CHR ''?'', [])], False)))"

text \<open>
  All the results of the successive calls of \<open>getopt\<close> on the words after \<open>argv[0]\<close>, up
  to the call that returns -1, with the words left from \<open>argv + optind\<close> on at that
  moment. A word that is \<open>--\<close> ends the options. A word that does not start with a dash,
  or is a dash alone, is no option: with \<open>posix\<close> (POSIXLY_CORRECT, or a C library that
  does not permute) it ends the options; otherwise GNU \<open>getopt\<close> skips it and moves
  it behind the options.
\<close>

fun getopt_all :: "bool \<Rightarrow> string list \<Rightarrow> (char \<times> string) list \<times> string list" where
  "getopt_all posix [] = ([], [])"
| "getopt_all posix (a # rest) =
     (if a = ''--'' then ([], rest)
      else if (case a of c # cs \<Rightarrow> c = CHR ''-'' \<and> cs \<noteq> [] | [] \<Rightarrow> False) then
        (let (rs, used) = cluster (tl a) (case rest of [] \<Rightarrow> None | b # _ \<Rightarrow> Some b);
             (rs', pos) = getopt_all posix (if used then tl rest else rest)
         in (rs @ rs', pos))
      else if posix then ([], a # rest)
      else (let (rs, pos) = getopt_all posix rest in (rs, a # pos)))"

subsection \<open>The calls main makes\<close>

datatype container = SeqAssembly | SeqReads

text \<open>
  One constructor per call of the source. \<open>'p\<close> is the type of the path lists that
  \<open>getEdgesPaths\<close> and \<open>getUnbranchingPaths\<close> return, \<open>'c\<close> the type of the mean coverage.
\<close>

datatype ('p, 'c) event =
    PrintUsage string
  | Parameters_minimumOverlap int
  | Parameters_kmerSize int
  | Parameters_numThreads nat
  | Logger_setDebugging bool
  | Logger_setOutputFile string
  | Logger_debug string
  | Logger_info string
  | Logger_error string
  | Sync_with_stdio bool
  | Config_load string
  | New_SequenceContainer container
  | LoadFromFile container string
  | New_RepeatGraph
  | New_GraphProcessor
  | New_ReadAligner
  | New_OutputGenerator
  | New_MultiplicityInferer
  | New_RepeatResolver
  | New_ContigExtender 'c
  | RG_build
  | Proc_simplify
  | Aligner_alignReads
  | MI_estimateCoverage
  | MI_removeUnsupportedEdges
  | MI_removeUnsupportedConnections
  | MI_separateHaplotypes
  | RR_findRepeats
  | RR_resolveRepeats
  | RR_fixLongEdges
  | Ext_generateUnbranchingPaths
  | Ext_generateContigs bool
  | Ext_outputContigs string
  | Ext_outputStatsTable string
  | Ext_outputScaffoldConnections string
  | OutputDot 'p string
  | OutputGfa 'p string
  | OutputFasta 'p string
  | DumpRepeats 'p string

datatype exn = ParseException string | OtherException

text \<open>
  What is outside the file. Every function of the environment sees the calls made so
  far: \<open>raises\<close> says whether a call throws, and the three accessors say what they
  return at that moment. \<open>splitString\<close> is the helper of that name, \<open>build_date\<close> the text
  of \<open>__DATE__ " " __TIME__\<close>, and \<open>posixly_correct\<close> the behaviour of \<open>getopt\<close> on a word
  that is no option.
\<close>

record ('p, 'c) env =
  posixly_correct :: bool
  build_date :: string
  splitString :: "string \<Rightarrow> char \<Rightarrow> string list"
  raises :: "('p, 'c) event list \<Rightarrow> ('p, 'c) event \<Rightarrow> exn option"
  getEdgesPaths :: "('p, 'c) event list \<Rightarrow> 'p"
  getUnbranchingPaths :: "('p, 'c) event list \<Rightarrow> 'p"
  getMeanCoverage :: "('p, 'c) event list \<Rightarrow> 'c"

text \<open>
  Writing to \<open>std::cerr\<close> and to the logger and assigning a field of \<open>Parameters\<close> do not
  throw; every other call may.
\<close>

fun is_glue :: "('p, 'c) event \<Rightarrow> bool" where
  "is_glue (PrintUsage _) = True"
| "is_glue (Parameters_minimumOverlap _) = True"
| "is_glue (Parameters_kmerSize _) = True"
| "is_glue (Parameters_numThreads _) = True"
| "is_glue (Logger_setDebugging _) = True"
| "is_glue (Logger_setOutputFile _) = True"
| "is_glue (Logger_debug _) = True"
| "is_glue (Logger_info _) = True"
| "is_glue (Logger_error _) = True"
| "is_glue (Sync_with_stdio _) = True"
| "is_glue _ = False"

definition thrown :: "('p, 'c) env \<Rightarrow> ('p, 'c) event list \<Rightarrow> ('p, 'c) event \<Rightarrow> exn option" where
  "thrown env tr e = (if is_glue e then None else raises env tr e)"

text \<open>
  A statement is a call whose arguments are evaluated when it is made, that is, after
  the calls before it. \<open>run\<close> executes statements in order and stops at the first call
  that throws; the call that throws is recorded, it was made.
\<close>

type_synonym ('p, 'c) stmt = "('p, 'c) event list \<Rightarrow> ('p, 'c) event"

definition call :: "('p, 'c) event \<Rightarrow> ('p, 'c) stmt" where
  "call e = (\<lambda>tr. e)"

fun run :: "('p, 'c) env \<Rightarrow> ('p, 'c) stmt list \<Rightarrow> ('p, 'c) event list
              \<Rightarrow> exn option \<times> ('p, 'c) event list" where
  "run env [] tr = (None, tr)"
| "run env (s # ss) tr =
     (case thrown env tr (s tr) of
        Some x \<Rightarrow> (Some x, tr @ [s tr])
      | None \<Rightarrow> run env ss (tr @ [s tr]))"

subsection \<open>parseArgs\<close>

record args =
  numThreads :: nat
  debug :: bool
  graphContinue :: bool
  minOverlap :: int
  kmerSize :: int
  logFile :: string
  inAssembly :: string
  readsFasta :: string
  outFolder :: string
  configPath :: string

text \<open>
  The \<open>switch\<close> on one result of \<open>getopt\<close>; \<open>None\<close> is the case \<open>'h'\<close>, which prints the
  usage and calls \<open>exit(0)\<close>. A character without a case, such as \<open>?\<close>, changes nothing.
\<close>

definition switch_opt :: "char \<Rightarrow> string \<Rightarrow> args \<Rightarrow> args option" where
  "switch_opt opt optarg a =
     (if opt = CHR ''t'' then Some (a\<lparr>numThreads := size_t_of_int (atoi optarg)\<rparr>)
      else if opt = CHR ''v'' then Some (a\<lparr>minOverlap := atoi optarg\<rparr>)
      else if opt = CHR ''k'' then Some (a\<lparr>kmerSize := atoi optarg\<rparr>)
      else if opt = CHR ''l'' then Some (a\<lparr>logFile := optarg\<rparr>)
      else if opt = CHR ''d'' then Some (a\<lparr>debug := True\<rparr>)
      else if opt = CHR ''g'' then Some (a\<lparr>graphContinue := True\<rparr>)
      else if opt = CHR ''h'' then None
      else Some a)"

text \<open>The \<open>while\<close> loop over the results of \<open>getopt\<close>, until it returns -1.\<close>

fun opt_loop :: "(char \<times> string) list \<Rightarrow> args \<Rightarrow> args option" where
  "opt_loop [] a = Some a"
| "opt_loop ((opt, optarg) # rs) a =
     (case switch_opt opt optarg a of
        None \<Rightarrow> None
      | Some a' \<Rightarrow> opt_loop rs a')"

text \<open>
  \<open>parseArgs\<close> either leaves the process (\<open>Exit\<close>) or returns a truth value together with
  the variables it was given by reference. \<open>argv0\<close> is \<open>argv[0]\<close> and \<open>ws\<close> are the words
  after it. The first component of the result lists the calls of \<open>printUsage\<close>, each by
  the program name it prints.
\<close>

datatype parsed = Exit int | Return bool args

definition parseArgs :: "bool \<Rightarrow> string \<Rightarrow> string list \<Rightarrow> args \<Rightarrow> string list \<times> parsed" where
  "parseArgs posix argv0 ws a0 =
     (let a1 = a0\<lparr>numThreads := 1, debug := False, graphContinue := False,
                  minOverlap := 5000, kmerSize := 15\<rparr>;
          (opts, rest) = getopt_all posix ws
      in case opt_loop opts a1 of
           None \<Rightarrow> ([argv0], Exit 0)
         | Some a2 \<Rightarrow>
            (case rest of
               [w0, w1, w2, w3] \<Rightarrow>
                 ([], Return True
                        (a2\<lparr>inAssembly := w0, readsFasta := w1,
                            outFolder := w2, configPath := w3\<rparr>))
             | _ \<Rightarrow> ([argv0], Return False a2)))"

subsection \<open>main\<close>

text \<open>How the process ends: \<open>main\<close> returns, \<open>exit\<close> is called, or an exception is not caught.\<close>

datatype status = Returned int | Exited int | Terminated exn

text \<open>The local variables of \<open>main\<close> as it initialises them.\<close>

definition locals0 :: args where
  "locals0 = \<lparr>numThreads = 1, debug = False, graphContinue = False,
              minOverlap = 5000, kmerSize = 15, logFile = [], inAssembly = [],
              readsFasta = [], outFolder = [], configPath = []\<rparr>"

text \<open>Lines 171 to 183: the parameters, the logger, the configuration, the containers.\<close>

definition configure :: "('p, 'c) env \<Rightarrow> args \<Rightarrow> ('p, 'c) stmt list" where
  "configure env a =
     [call (Parameters_minimumOverlap (minOverlap a)),
      call (Parameters_kmerSize (kmerSize a)),
      call (Parameters_numThreads (numThreads a)),
      call (Logger_setDebugging (debug a))]
     @ (if logFile a \<noteq> [] then [call (Logger_setOutputFile (logFile a))] else [])
     @ [call (Logger_debug (''Build date: '' @ build_date env)),
        call (Sync_with_stdio False),
        call (Config_load (configPath a)),
        call (Logger_info ''Reading sequences''),
        call (New_SequenceContainer SeqAssembly),
        call (New_SequenceContainer SeqReads)]"

text \<open>The body of the \<open>try\<close> block, lines 187 to 191.\<close>

definition load_sequences :: "('p, 'c) env \<Rightarrow> args \<Rightarrow> ('p, 'c) stmt list" where
  "load_sequences env a =
     call (LoadFromFile SeqAssembly (inAssembly a))
     # map (\<lambda>readsFile. call (LoadFromFile SeqReads readsFile))
           (splitString env (readsFasta a) CHR '','')"

text \<open>Lines 199 to 247.\<close>

definition assemble :: "('p, 'c) env \<Rightarrow> args \<Rightarrow> ('p, 'c) stmt list" where
  "assemble env a =
     [call New_RepeatGraph,
      call New_GraphProcessor,
      call New_ReadAligner,
      call New_OutputGenerator,
      call (Logger_info ''Building repeat graph''),
      call RG_build,
      (\<lambda>tr. OutputDot (getEdgesPaths env tr) (outFolder a @ ''/graph_raw.dot'')),
      call Proc_simplify,
      call (Logger_info ''Aligning reads to the graph''),
      call Aligner_alignReads,
      call New_MultiplicityInferer,
      call MI_estimateCoverage,
      call MI_removeUnsupportedEdges,
      call MI_removeUnsupportedConnections,
      call MI_separateHaplotypes,
      call (Logger_info ''Resolving repeats''),
      call New_RepeatResolver,
      call RR_findRepeats,
      (\<lambda>tr. OutputDot (getEdgesPaths env tr) (outFolder a @ ''/graph_before_rr.dot'')),
      (\<lambda>tr. OutputGfa (getEdgesPaths env tr) (outFolder a @ ''/graph_before_rr.gfa'')),
      (\<lambda>tr. OutputFasta (getEdgesPaths env tr) (outFolder a @ ''/graph_before_rr.fasta'')),
      call RR_resolveRepeats,
      call RR_fixLongEdges,
      (\<lambda>tr. OutputDot (getEdgesPaths env tr) (outFolder a @ ''/graph_after_rr.dot'')),
      call (Logger_info ''Generating contigs''),
      (\<lambda>tr. New_ContigExtender (getMeanCoverage env tr)),
      call Ext_generateUnbranchingPaths,
      call (Ext_generateContigs (graphContinue a)),
      call (Ext_outputContigs (outFolder a @ ''/graph_paths.fasta'')),
      call (Ext_outputStatsTable (outFolder a @ ''/contigs_stats.txt'')),
      call (Ext_outputScaffoldConnections (outFolder a @ ''/scaffolds_links.txt'')),
      (\<lambda>tr. DumpRepeats (getUnbranchingPaths env tr) (outFolder a @ ''/repeats_dump.txt'')),
      (\<lambda>tr. OutputDot (getUnbranchingPaths env tr) (outFolder a @ ''/graph_final.dot'')),
      (\<lambda>tr. OutputFasta (getUnbranchingPaths env tr) (outFolder a @ ''/graph_final.fasta'')),
      (\<lambda>tr. OutputGfa (getUnbranchingPaths env tr) (outFolder a @ ''/graph_final.gfa''))]"

text \<open>
  \<open>main\<close>: the final status of the process and the calls it made, in order. Only the
  \<open>ParseException\<close> of the \<open>try\<close> block is caught; any other exception, and any exception
  outside the block, ends the process through \<open>std::terminate\<close>.
\<close>

definition main :: "('p, 'c) env \<Rightarrow> string \<Rightarrow> string list \<Rightarrow> status \<times> ('p, 'c) event list" where
  "main env argv0 ws =
     (case parseArgs (posixly_correct env) argv0 ws locals0 of
        (usage, Exit n) \<Rightarrow> (Exited n, map PrintUsage usage)
      | (usage, Return False a) \<Rightarrow> (Returned 1, map PrintUsage usage)
      | (usage, Return True a) \<Rightarrow>
         (case run env (configure env a) (map PrintUsage usage) of
            (Some x, tr1) \<Rightarrow> (Terminated x, tr1)
          | (None, tr1) \<Rightarrow>
             (case run env (load_sequences env a) tr1 of
                (Some (ParseException what), tr2) \<Rightarrow> (Returned 1, tr2 @ [Logger_error what])
              | (Some OtherException, tr2) \<Rightarrow> (Terminated OtherException, tr2)
              | (None, tr2) \<Rightarrow>
                 (case run env (assemble env a) tr2 of
                    (Some x, tr3) \<Rightarrow> (Terminated x, tr3)
                  | (None, tr3) \<Rightarrow> (Returned 0, tr3)))))"

subsection \<open>Reading a trace\<close>

text \<open>The calls a list of statements makes when none of them throws.\<close>

fun unroll :: "('p, 'c) stmt list \<Rightarrow> ('p, 'c) event list \<Rightarrow> ('p, 'c) event list" where
  "unroll [] tr = tr"
| "unroll (s # ss) tr = unroll ss (tr @ [s tr])"

text \<open>The same calls without the calls made before: \<open>unroll ss tr = tr @ events ss tr\<close>.\<close>

fun events :: "('p, 'c) stmt list \<Rightarrow> ('p, 'c) event list \<Rightarrow> ('p, 'c) event list" where
  "events [] tr = []"
| "events (s # ss) tr = s tr # events ss (tr @ [s tr])"

text \<open>
  \<open>precedes a Q tr\<close>: in the trace \<open>tr\<close> the call \<open>a\<close> is made before any call that
  satisfies \<open>Q\<close>, that is, wherever a call satisfying \<open>Q\<close> stands, \<open>a\<close> stands somewhere
  before it (lemma \<open>precedes_iff\<close>).
\<close>

fun precedes :: "'a \<Rightarrow> ('a \<Rightarrow> bool) \<Rightarrow> 'a list \<Rightarrow> bool" where
  "precedes a Q [] = True"
| "precedes a Q (x # xs) = (if x = a then True else if Q x then False else precedes a Q xs)"

text \<open>
  \<open>closes Q tr\<close>: in the trace \<open>tr\<close>, once a call satisfies \<open>Q\<close> every later call does
  (lemma \<open>closes_nth\<close>).
\<close>

fun closes :: "('a \<Rightarrow> bool) \<Rightarrow> 'a list \<Rightarrow> bool" where
  "closes Q [] = True"
| "closes Q (x # xs) = (if Q x then list_all Q xs else closes Q xs)"

text \<open>
  The calls that read the configuration and the input, and the calls of the assembly
  itself: every constructor, phase and file output of lines 199 to 247.
\<close>

fun is_input :: "('p, 'c) event \<Rightarrow> bool" where
  "is_input (Config_load _) = True"
| "is_input (New_SequenceContainer _) = True"
| "is_input (LoadFromFile _ _) = True"
| "is_input _ = False"

definition is_assembly :: "('p, 'c) event \<Rightarrow> bool" where
  "is_assembly e = (\<not> is_glue e \<and> \<not> is_input e)"

text \<open>The passes of the multiplicity inferer and of the repeat resolver, as main orders them.\<close>

definition infer_passes :: "('p, 'c) event list" where
  "infer_passes = [MI_estimateCoverage, MI_removeUnsupportedEdges,
                   MI_removeUnsupportedConnections, MI_separateHaplotypes]"

definition resolve_passes :: "('p, 'c) event list" where
  "resolve_passes = [RR_findRepeats, RR_resolveRepeats, RR_fixLongEdges]"

definition is_infer :: "('p, 'c) event \<Rightarrow> bool" where
  "is_infer e = (e \<in> set infer_passes)"

definition is_resolve :: "('p, 'c) event \<Rightarrow> bool" where
  "is_resolve e = (e \<in> set resolve_passes)"

text \<open>Contig extension: the construction of the extender and every call on it.\<close>

fun is_extend :: "('p, 'c) event \<Rightarrow> bool" where
  "is_extend (New_ContigExtender _) = True"
| "is_extend Ext_generateUnbranchingPaths = True"
| "is_extend (Ext_generateContigs _) = True"
| "is_extend (Ext_outputContigs _) = True"
| "is_extend (Ext_outputStatsTable _) = True"
| "is_extend (Ext_outputScaffoldConnections _) = True"
| "is_extend _ = False"

text \<open>The files loaded into a container, in the order of the calls.\<close>

fun loaded :: "container \<Rightarrow> ('p, 'c) event list \<Rightarrow> string list" where
  "loaded c [] = []"
| "loaded c (LoadFromFile c' f # tr) = (if c' = c then f # loaded c tr else loaded c tr)"
| "loaded c (e # tr) = loaded c tr"

text \<open>
  The list of paths a call of the output generator is given, and the four outputs main
  writes last into the output folder \<open>dir\<close>.
\<close>

fun paths_arg :: "('p, 'c) event \<Rightarrow> 'p option" where
  "paths_arg (OutputDot p f) = Some p"
| "paths_arg (OutputGfa p f) = Some p"
| "paths_arg (OutputFasta p f) = Some p"
| "paths_arg (DumpRepeats p f) = Some p"
| "paths_arg _ = None"

fun is_final_output :: "string \<Rightarrow> ('p, 'c) event \<Rightarrow> bool" where
  "is_final_output dir (DumpRepeats p f) = (f = dir @ ''/repeats_dump.txt'')"
| "is_final_output dir (OutputDot p f) = (f = dir @ ''/graph_final.dot'')"
| "is_final_output dir (OutputFasta p f) = (f = dir @ ''/graph_final.fasta'')"
| "is_final_output dir (OutputGfa p f) = (f = dir @ ''/graph_final.gfa'')"
| "is_final_output dir _ = False"

fun is_generateContigs :: "('p, 'c) event \<Rightarrow> bool" where
  "is_generateContigs (Ext_generateContigs _) = True"
| "is_generateContigs _ = False"

subsection \<open>Concrete runs\<close>

text \<open>
  Modelled from the spec: \<open>splitString\<close> is defined outside main.cpp. The specification
  says of its result only that \<open>reads_files\<close> is a comma-separated list; this is the
  reading of a delimited list with \<open>std::getline\<close>, in which a delimiter ends a field and
  an empty last field is dropped. The theorems take \<open>splitString\<close> from the environment;
  this function stands for it in the concrete runs.
\<close>

fun split_fields :: "char \<Rightarrow> string \<Rightarrow> string \<Rightarrow> string list" where
  "split_fields d acc [] = (if acc = [] then [] else [rev acc])"
| "split_fields d acc (c # cs) =
     (if c = d then rev acc # split_fields d [] cs else split_fields d (c # acc) cs)"

text \<open>
  An environment in which no call throws. What \<open>getUnbranchingPaths\<close> returns in it depends
  on the calls made so far, the calls on the output generator excepted.
\<close>

definition env_ok :: "(nat, nat) env" where
  "env_ok = \<lparr>posixly_correct = False, build_date = ''Jan  1 2017 00:00:00'',
             splitString = (\<lambda>s d. split_fields d [] s),
             raises = (\<lambda>tr e. None),
             getEdgesPaths = (\<lambda>tr. length tr),
             getUnbranchingPaths = (\<lambda>tr. 100 + length (filter (\<lambda>e. paths_arg e = None) tr)),
             getMeanCoverage = (\<lambda>tr. 1000 + length tr)\<rparr>"

text \<open>An environment in which the second file of reads is malformed.\<close>

definition env_bad :: "(nat, nat) env" where
  "env_bad = env_ok\<lparr>raises := (\<lambda>tr e. if e = LoadFromFile SeqReads ''r2.fa''
                                         then Some (ParseException ''bad record'') else None)\<rparr>"

definition argv_ok :: "string list" where
  "argv_ok = [''-t'', ''4'', ''asm.fa'', ''r1.fa,r2.fa'', ''out'', ''cfg'']"

section \<open>Lemmas\<close>

subsection \<open>Running statements\<close>


lemma run_extends:
  "run env ss tr0 = (r, tr) \<Longrightarrow> \<exists>es. tr = tr0 @ es \<and> (r \<noteq> None \<longrightarrow> es \<noteq> [])"
proof (induction ss arbitrary: tr0)
  case Nil
  then show ?case by simp
next
  case (Cons s ss)
  show ?case
  proof (cases "thrown env tr0 (s tr0)")
    case None
    with Cons.prems have "run env ss (tr0 @ [s tr0]) = (r, tr)" by simp
    from Cons.IH [OF this] show ?thesis by auto
  next
    case (Some x)
    with Cons.prems show ?thesis by auto
  qed
qed

lemma run_pointwise:
  assumes "run env ss tr0 = (r, tr)" and "\<And>s h. s \<in> set ss \<Longrightarrow> P h (s h)"
    and "length tr0 \<le> i" and "i < length tr"
  shows "P (take i tr) (tr ! i)"
  using assms
proof (induction ss arbitrary: tr0)
  case Nil
  then show ?case by simp
next
  case (Cons s ss)
  have here: "P tr0 (s tr0)" using Cons.prems(2) by simp
  show ?case
  proof (cases "thrown env tr0 (s tr0)")
    case (Some x)
    with Cons.prems have "tr = tr0 @ [s tr0]" by simp
    with Cons.prems(3,4) have "i = length tr0" by simp
    with \<open>tr = tr0 @ [s tr0]\<close> here show ?thesis by simp
  next
    case None
    with Cons.prems have r: "run env ss (tr0 @ [s tr0]) = (r, tr)" by simp
    from run_extends [OF r] obtain es where es: "tr = (tr0 @ [s tr0]) @ es" by blast
    show ?thesis
    proof (cases "i = length tr0")
      case True
      with es here show ?thesis by (simp add: nth_append)
    next
      case False
      with Cons.prems(3) have "length (tr0 @ [s tr0]) \<le> i" by simp
      from Cons.IH [OF r _ this Cons.prems(4)] Cons.prems(2) show ?thesis by simp
    qed
  qed
qed

lemma run_thrown_at:
  assumes "run env ss tr0 = (r, tr)" and "length tr0 \<le> i" and "i < length tr"
  shows "thrown env (take i tr) (tr ! i) = (if Suc i = length tr then r else None)"
  using assms
proof (induction ss arbitrary: tr0)
  case Nil
  then show ?case by simp
next
  case (Cons s ss)
  show ?case
  proof (cases "thrown env tr0 (s tr0)")
    case (Some x)
    with Cons.prems have tr: "tr = tr0 @ [s tr0]" and rx: "r = Some x" by simp_all
    with Cons.prems(2,3) have "i = length tr0" by simp
    with tr rx Some show ?thesis by simp
  next
    case None
    with Cons.prems have r: "run env ss (tr0 @ [s tr0]) = (r, tr)" by simp
    from run_extends [OF r] obtain es where es: "tr = (tr0 @ [s tr0]) @ es"
      and ne: "r \<noteq> None \<longrightarrow> es \<noteq> []" by blast
    show ?thesis
    proof (cases "i = length tr0")
      case True
      with es ne None show ?thesis by (auto simp: nth_append)
    next
      case False
      with Cons.prems(2) have "length (tr0 @ [s tr0]) \<le> i" by simp
      from Cons.IH [OF r this Cons.prems(3)] show ?thesis .
    qed
  qed
qed

lemma unroll_extends: "prefix tr (unroll ss tr)"
proof (induction ss arbitrary: tr)
  case Nil
  then show ?case by simp
next
  case (Cons s ss)
  have "prefix tr (tr @ [s tr])" by simp
  also have "prefix (tr @ [s tr]) (unroll ss (tr @ [s tr]))" by (rule Cons.IH)
  finally show ?case by simp
qed

lemma run_prefix_unroll: "run env ss tr0 = (r, tr) \<Longrightarrow> prefix tr (unroll ss tr0)"
proof (induction ss arbitrary: tr0)
  case Nil
  then show ?case by simp
next
  case (Cons s ss)
  have ext: "prefix (tr0 @ [s tr0]) (unroll ss (tr0 @ [s tr0]))"
    by (rule unroll_extends)
  show ?case
  proof (cases "thrown env tr0 (s tr0)")
    case (Some x)
    with Cons.prems ext show ?thesis by simp
  next
    case None
    with Cons.prems Cons.IH show ?thesis by simp
  qed
qed

lemma run_None_unroll: "run env ss tr0 = (None, tr) \<Longrightarrow> tr = unroll ss tr0"
  by (induction ss arbitrary: tr0) (auto split: option.splits)

lemma unroll_append: "unroll (ss1 @ ss2) tr = unroll ss2 (unroll ss1 tr)"
  by (induction ss1 arbitrary: tr) auto

lemma set_unroll:
  "x \<in> set (unroll ss tr) \<Longrightarrow> x \<in> set tr \<or> (\<exists>s\<in>set ss. \<exists>h. x = s h)"
  by (induction ss arbitrary: tr) fastforce+

lemma precedes_prefix: "precedes a Q (xs @ ys) \<Longrightarrow> precedes a Q xs"
  by (induction xs) (auto split: if_splits)

lemma precedes_none: "\<forall>x\<in>set xs. \<not> Q x \<Longrightarrow> precedes a Q xs"
  by (induction xs) auto

lemma precedes_skip:
  "\<forall>x\<in>set xs. x \<noteq> a \<and> \<not> Q x \<Longrightarrow> precedes a Q (xs @ ys) = precedes a Q ys"
  by (induction xs) auto

lemma precedes_iff:
  "\<not> Q a \<Longrightarrow> precedes a Q xs \<longleftrightarrow> (\<forall>i<length xs. Q (xs ! i) \<longrightarrow> (\<exists>j<i. xs ! j = a))"
proof (induction xs)
  case Nil
  then show ?case by simp
next
  case (Cons x xs)
  show ?case
  proof (cases "x = a")
    case True
    have "\<exists>j<i. (x # xs) ! j = a" if "Q ((x # xs) ! i)" for i
      using that True Cons.prems by (cases i) auto
    with True show ?thesis by simp
  next
    case xa: False
    show ?thesis
    proof (cases "Q x")
      case True
      then have "\<not> (\<forall>i<length (x # xs). Q ((x # xs) ! i) \<longrightarrow> (\<exists>j<i. (x # xs) ! j = a))"
        by (auto intro: exI [of _ 0])
      with xa True show ?thesis by simp
    next
      case False
      have "(\<forall>i<length (x # xs). Q ((x # xs) ! i) \<longrightarrow> (\<exists>j<i. (x # xs) ! j = a))
            \<longleftrightarrow> (\<forall>i<length xs. Q (xs ! i) \<longrightarrow> (\<exists>j<i. xs ! j = a))" (is "?L \<longleftrightarrow> ?R")
      proof
        assume L: ?L
        show ?R
        proof (intro allI impI)
          fix i assume "i < length xs" "Q (xs ! i)"
          with L have "\<exists>j<Suc i. (x # xs) ! j = a" by (auto dest: spec [of _ "Suc i"])
          then obtain j where j: "j < Suc i" "(x # xs) ! j = a" by blast
          with xa obtain k where "j = Suc k" by (cases j) auto
          with j show "\<exists>j<i. xs ! j = a" by auto
        qed
      next
        assume R: ?R
        show ?L
        proof (intro allI impI)
          fix i assume i: "i < length (x # xs)" "Q ((x # xs) ! i)"
          with False obtain k where k: "i = Suc k" by (cases i) auto
          with i R obtain j where "j < k" "xs ! j = a" by auto
          with k show "\<exists>j<i. (x # xs) ! j = a" by (auto intro: exI [of _ "Suc j"])
        qed
      qed
      with xa False Cons show ?thesis by simp
    qed
  qed
qed


lemma switch_opt_None: "switch_opt opt optarg a = None \<longleftrightarrow> opt = CHR ''h''"
  by (simp add: switch_opt_def)

lemma opt_loop_None: "opt_loop opts a = None \<longleftrightarrow> CHR ''h'' \<in> fst ` set opts"
proof (induction opts arbitrary: a)
  case Nil
  then show ?case by simp
next
  case (Cons p opts)
  obtain opt optarg where p: "p = (opt, optarg)" by (cases p)
  show ?case
  proof (cases "switch_opt opt optarg a")
    case None
    then have "opt = CHR ''h''" by (simp add: switch_opt_None)
    with p None show ?thesis by simp
  next
    case (Some a')
    then have "opt \<noteq> CHR ''h''" using switch_opt_None [of opt optarg a] by auto
    with p Some Cons.IH [of a'] show ?thesis by auto
  qed
qed

lemma parseArgs_cases:
  assumes "parseArgs posix argv0 ws a0 = (out, p)"
  shows "(out = [argv0] \<and> (p = Exit 0 \<or> (\<exists>a. p = Return False a)))
         \<or> (out = [] \<and> (\<exists>a. p = Return True a))"
  using assms
  by (auto simp: parseArgs_def Let_def split: prod.splits option.splits list.splits)

lemma glue_not_assembly: "is_glue e \<Longrightarrow> \<not> is_assembly e"
  by (simp add: is_assembly_def)

lemma configure_not_assembly: "s \<in> set (configure env a) \<Longrightarrow> \<not> is_assembly (s h)"
  by (auto simp: configure_def call_def is_assembly_def split: if_splits)

lemma load_not_assembly: "s \<in> set (load_sequences env a) \<Longrightarrow> \<not> is_assembly (s h)"
  by (auto simp: load_sequences_def call_def is_assembly_def)

subsection \<open>The traces of main\<close>


text \<open>The shape of every trace of main.\<close>

lemma main_shape:
  fixes env :: "('p, 'c) env"
  assumes "main env argv0 ws = (st, tr)"
  shows "(tr = [PrintUsage argv0] \<and> (st = Exited 0 \<or> st = Returned 1))
       \<or> (\<exists>a. parseArgs (posixly_correct env) argv0 ws locals0 = ([], Return True a) \<and>
            (prefix tr (unroll (assemble env a)
                         (unroll (load_sequences env a) (unroll (configure env a) [])))
             \<or> (\<exists>tr2 what. tr = tr2 @ [Logger_error what] \<and> st = Returned 1 \<and>
                   prefix tr2 (unroll (load_sequences env a) (unroll (configure env a) [])))))"
proof -
  obtain out p where pa: "parseArgs (posixly_correct env) argv0 ws locals0 = (out, p)"
    by (cases "parseArgs (posixly_correct env) argv0 ws locals0")
  from parseArgs_cases [OF pa] consider
      (usage) "out = [argv0]" "p = Exit 0 \<or> (\<exists>a. p = Return False a)"
    | (ok) a where "out = []" "p = Return True a" by blast
  then show ?thesis
  proof cases
    case usage
    with pa assms show ?thesis by (auto simp: main_def)
  next
    case (ok a)
    let ?T1 = "unroll (configure env a) []"
    let ?T2 = "unroll (load_sequences env a) ?T1"
    obtain r1 tr1 where r1: "run env (configure env a) [] = (r1, tr1)"
      by (cases "run env (configure env a) []")
    have p1: "prefix tr1 ?T1" by (rule run_prefix_unroll [OF r1])
    have e2: "prefix ?T1 ?T2" by (rule unroll_extends)
    have e3: "prefix ?T2 (unroll (assemble env a) ?T2)" by (rule unroll_extends)
    have pa': "parseArgs (posixly_correct env) argv0 ws locals0 = ([], Return True a)"
      using pa ok by simp
    show ?thesis
    proof (cases r1)
      case (Some x)
      with pa ok r1 assms have "tr = tr1" by (simp add: main_def)
      with p1 e2 e3 have "prefix tr (unroll (assemble env a) ?T2)"
        using prefix_order.trans by blast
      with pa' show ?thesis by blast
    next
      case None
      with r1 have t1: "tr1 = ?T1" by (simp add: run_None_unroll)
      obtain r2 tr2 where r2: "run env (load_sequences env a) tr1 = (r2, tr2)"
        by (cases "run env (load_sequences env a) tr1")
      have p2: "prefix tr2 ?T2" using run_prefix_unroll [OF r2] t1 by simp
      show ?thesis
      proof (cases r2)
        case (Some x)
        show ?thesis
        proof (cases x)
          case (ParseException what)
          with pa ok r1 None r2 Some assms
          have "tr = tr2 @ [Logger_error what]" "st = Returned 1" by (simp_all add: main_def)
          with p2 pa' show ?thesis by blast
        next
          case OtherException
          with pa ok r1 None r2 Some assms have "tr = tr2" by (simp add: main_def)
          with p2 e3 have "prefix tr (unroll (assemble env a) ?T2)"
            using prefix_order.trans by blast
          with pa' show ?thesis by blast
        qed
      next
        case n2: None
        with r2 t1 have t2: "tr2 = ?T2" by (simp add: run_None_unroll)
        obtain r3 tr3 where r3: "run env (assemble env a) tr2 = (r3, tr3)"
          by (cases "run env (assemble env a) tr2")
        have p3: "prefix tr3 (unroll (assemble env a) ?T2)"
          using run_prefix_unroll [OF r3] t2 by simp
        from pa ok r1 None r2 n2 r3 assms have "tr = tr3"
          by (cases r3) (simp_all add: main_def)
        with p3 pa' show ?thesis by blast
      qed
    qed
  qed
qed

lemma input_not_assembly:
  "x \<in> set (unroll (load_sequences env a) (unroll (configure env a) [])) \<Longrightarrow> \<not> is_assembly x"
  by (auto dest!: set_unroll simp: configure_not_assembly load_not_assembly)

text \<open>
  An order between a call and the calls of the assembly holds in every run when it holds
  in the run in which nothing throws.
\<close>

lemma main_precedes:
  fixes env :: "('p, 'c) env"
  assumes Q: "\<And>e. Q e \<Longrightarrow> is_assembly e"
    and full: "\<And>a. parseArgs (posixly_correct env) argv0 ws locals0 = ([], Return True a) \<Longrightarrow>
                 precedes x Q (unroll (assemble env a)
                   (unroll (load_sequences env a) (unroll (configure env a) [])))"
  shows "precedes x Q (snd (main env argv0 ws))"
proof -
  obtain st tr where m: "main env argv0 ws = (st, tr)" by (cases "main env argv0 ws")
  have nq: "\<not> Q e" if "\<not> is_assembly e" for e using that Q by blast
  from main_shape [OF m] consider
      (usage) "tr = [PrintUsage argv0]"
    | (pre) a where "parseArgs (posixly_correct env) argv0 ws locals0 = ([], Return True a)"
        "prefix tr (unroll (assemble env a)
                     (unroll (load_sequences env a) (unroll (configure env a) [])))"
    | (caught) a tr2 what
      where "tr = tr2 @ [Logger_error what]"
        "prefix tr2 (unroll (load_sequences env a) (unroll (configure env a) []))"
    by blast
  then have "precedes x Q tr"
  proof cases
    case usage
    then show ?thesis using nq [of "PrintUsage argv0"] by (simp add: is_assembly_def)
  next
    case (pre a)
    from pre(2) obtain zs
      where "unroll (assemble env a)
               (unroll (load_sequences env a) (unroll (configure env a) [])) = tr @ zs"
      by (auto simp: prefix_def)
    with full [OF pre(1)] show ?thesis by (simp add: precedes_prefix)
  next
    case (caught a tr2 what)
    have "\<not> is_assembly e" if "e \<in> set tr2" for e
      using that caught(2) input_not_assembly [of e env a] by (auto simp: prefix_def)
    then have "\<forall>e\<in>set tr. \<not> Q e"
      using caught(1) nq by (auto simp: is_assembly_def)
    then show ?thesis by (rule precedes_none)
  qed
  with m show ?thesis by simp
qed


lemma precedes_after_input:
  assumes "\<forall>e\<in>set T. \<not> is_assembly e" and "is_assembly x" and "\<And>e. Q e \<Longrightarrow> is_assembly e"
  shows "precedes x Q (T @ es) = precedes x Q es"
  using assms by (intro precedes_skip) auto

lemma infer_is_assembly: "is_infer e \<Longrightarrow> is_assembly e"
  by (auto simp: is_infer_def infer_passes_def is_assembly_def)

lemma resolve_is_assembly: "is_resolve e \<Longrightarrow> is_assembly e"
  by (auto simp: is_resolve_def resolve_passes_def is_assembly_def)

lemma extend_is_assembly: "is_extend e \<Longrightarrow> is_assembly e"
  by (cases e) (simp_all add: is_assembly_def)

lemma main_run:
  fixes env :: "('p, 'c) env"
  assumes "main env argv0 ws = (st, tr)"
  shows "(tr = [PrintUsage argv0] \<and> (st = Exited 0 \<or> st = Returned 1) \<and>
          (\<forall>u a. parseArgs (posixly_correct env) argv0 ws locals0 \<noteq> (u, Return True a)))
       \<or> (\<exists>a r1 tr1. parseArgs (posixly_correct env) argv0 ws locals0 = ([], Return True a) \<and>
            run env (configure env a) [] = (r1, tr1) \<and>
            ((\<exists>x. r1 = Some x \<and> tr = tr1 \<and> st = Terminated x)
             \<or> (r1 = None \<and> (\<exists>r2 tr2. run env (load_sequences env a) tr1 = (r2, tr2) \<and>
                  ((\<exists>what. r2 = Some (ParseException what) \<and> tr = tr2 @ [Logger_error what]
                            \<and> st = Returned 1)
                   \<or> (r2 = Some OtherException \<and> tr = tr2 \<and> st = Terminated OtherException)
                   \<or> (r2 = None \<and> (\<exists>r3. run env (assemble env a) tr2 = (r3, tr) \<and>
                         st = (case r3 of None \<Rightarrow> Returned 0 | Some x \<Rightarrow> Terminated x))))))))"
proof -
  obtain out p where pa: "parseArgs (posixly_correct env) argv0 ws locals0 = (out, p)"
    by (cases "parseArgs (posixly_correct env) argv0 ws locals0")
  from parseArgs_cases [OF pa] consider
      (usage) "out = [argv0]" "p = Exit 0 \<or> (\<exists>a. p = Return False a)"
    | (ok) a where "out = []" "p = Return True a" by blast
  then show ?thesis
  proof cases
    case usage
    with pa assms show ?thesis by (auto simp: main_def)
  next
    case (ok a)
    have pa': "parseArgs (posixly_correct env) argv0 ws locals0 = ([], Return True a)"
      using pa ok by simp
    obtain r1 tr1 where r1: "run env (configure env a) [] = (r1, tr1)"
      by (cases "run env (configure env a) []")
    obtain r2 tr2 where r2: "run env (load_sequences env a) tr1 = (r2, tr2)"
      by (cases "run env (load_sequences env a) tr1")
    obtain r3 tr3 where r3: "run env (assemble env a) tr2 = (r3, tr3)"
      by (cases "run env (assemble env a) tr2")
    from assms pa' r1 r2 r3
    have "(\<exists>x. r1 = Some x \<and> tr = tr1 \<and> st = Terminated x)
          \<or> (r1 = None \<and>
               ((\<exists>what. r2 = Some (ParseException what) \<and> tr = tr2 @ [Logger_error what]
                         \<and> st = Returned 1)
                \<or> (r2 = Some OtherException \<and> tr = tr2 \<and> st = Terminated OtherException)
                \<or> (r2 = None \<and> tr = tr3 \<and>
                     st = (case r3 of None \<Rightarrow> Returned 0 | Some x \<Rightarrow> Terminated x))))"
      by (auto simp: main_def split: option.splits exn.splits)
    with pa' r1 r2 r3 show ?thesis by blast
  qed
qed

lemma run_pointwise_from:
  assumes r: "run env ss tr0 = (r, tr)" and P: "\<And>s h. s \<in> set ss \<Longrightarrow> P h (s h)"
    and before: "\<forall>i<length tr0. P (take i tr0) (tr0 ! i)"
  shows "\<forall>i<length tr. P (take i tr) (tr ! i)"
proof (intro allI impI)
  fix i assume i: "i < length tr"
  from run_extends [OF r] obtain es where es: "tr = tr0 @ es" by blast
  show "P (take i tr) (tr ! i)"
  proof (cases "i < length tr0")
    case True
    with before es show ?thesis by (simp add: nth_append)
  next
    case False
    then have "length tr0 \<le> i" by simp
    show ?thesis
      by (rule run_pointwise [where P = P, OF r _ \<open>length tr0 \<le> i\<close> i]) (rule P)
  qed
qed

text \<open>
  A property of a call and of the calls made before it holds at every position of every
  trace of main when every statement of main establishes it.
\<close>

lemma main_pointwise:
  fixes env :: "('p, 'c) env"
  assumes m: "main env argv0 ws = (st, tr)"
    and usage: "P [] (PrintUsage argv0)"
    and err: "\<And>h what. P h (Logger_error what)"
    and stmts: "\<And>a s h. parseArgs (posixly_correct env) argv0 ws locals0 = ([], Return True a) \<Longrightarrow>
                  s \<in> set (configure env a) \<union> set (load_sequences env a) \<union> set (assemble env a) \<Longrightarrow>
                  P h (s h)"
  shows "\<forall>i<length tr. P (take i tr) (tr ! i)"
proof -
  from main_run [OF m] consider
      (usage) "tr = [PrintUsage argv0]"
    | (ok) a r1 tr1
      where "parseArgs (posixly_correct env) argv0 ws locals0 = ([], Return True a)"
        "run env (configure env a) [] = (r1, tr1)"
        "tr = tr1 \<or> (\<exists>r2 tr2. run env (load_sequences env a) tr1 = (r2, tr2) \<and>
            (tr = tr2 \<or> (\<exists>what. tr = tr2 @ [Logger_error what])
             \<or> (\<exists>r3. run env (assemble env a) tr2 = (r3, tr))))"
    by blast
  then show ?thesis
  proof cases
    case usage
    with assms(2) show ?thesis by simp
  next
    case ok
    have s1: "P h (s h)" if "s \<in> set (configure env a)" for s h
      using stmts [OF ok(1), of s h] that by simp
    have s2: "P h (s h)" if "s \<in> set (load_sequences env a)" for s h
      using stmts [OF ok(1), of s h] that by simp
    have s3: "P h (s h)" if "s \<in> set (assemble env a)" for s h
      using stmts [OF ok(1), of s h] that by simp
    have a1: "\<forall>i<length tr1. P (take i tr1) (tr1 ! i)"
      by (rule run_pointwise_from [where P = P, OF ok(2)]) (simp_all add: s1)
    from ok(3) show ?thesis
    proof
      assume "tr = tr1"
      with a1 show ?thesis by simp
    next
      assume "\<exists>r2 tr2. run env (load_sequences env a) tr1 = (r2, tr2) \<and>
            (tr = tr2 \<or> (\<exists>what. tr = tr2 @ [Logger_error what])
             \<or> (\<exists>r3. run env (assemble env a) tr2 = (r3, tr)))"
      then obtain r2 tr2 where r2: "run env (load_sequences env a) tr1 = (r2, tr2)"
        and rest: "tr = tr2 \<or> (\<exists>what. tr = tr2 @ [Logger_error what])
             \<or> (\<exists>r3. run env (assemble env a) tr2 = (r3, tr))" by blast
      have a2: "\<forall>i<length tr2. P (take i tr2) (tr2 ! i)"
        by (rule run_pointwise_from [where P = P, OF r2 _ a1]) (simp add: s2)
      from rest consider "tr = tr2" | what where "tr = tr2 @ [Logger_error what]"
        | r3 where "run env (assemble env a) tr2 = (r3, tr)" by blast
      then show ?thesis
      proof cases
        case 1
        with a2 show ?thesis by simp
      next
        case 2
        with a2 err [of tr2 what] show ?thesis by (auto simp: nth_append less_Suc_eq)
      next
        case 3
        show ?thesis
          by (rule run_pointwise_from [where P = P, OF 3 _ a2]) (simp add: s3)
      qed
    qed
  qed
qed

subsection \<open>The order of the calls\<close>



lemma assemble_events:
  "is_assembly New_RepeatGraph" "is_assembly RG_build" "is_assembly Proc_simplify"
  "is_assembly Aligner_alignReads" "is_assembly MI_estimateCoverage"
  "is_assembly MI_removeUnsupportedEdges" "is_assembly MI_removeUnsupportedConnections"
  "is_assembly MI_separateHaplotypes" "is_assembly RR_findRepeats"
  "is_assembly RR_resolveRepeats" "is_assembly RR_fixLongEdges"
  "is_assembly Ext_generateUnbranchingPaths"
  by (simp_all add: is_assembly_def)

lemma generateContigs_is_assembly: "is_generateContigs e \<Longrightarrow> is_assembly e"
  by (cases e) (simp_all add: is_assembly_def)

lemma final_output_is_assembly: "is_final_output dir e \<Longrightarrow> is_assembly e"
  by (cases e) (simp_all add: is_assembly_def)

lemma unroll_events: "unroll ss tr = tr @ events ss tr"
  by (induction ss arbitrary: tr) auto

text \<open>
  An order between two calls of the assembly holds in every run when it holds among the
  calls of lines 199 to 247, whatever was called before them.
\<close>

lemma assembly_order:
  fixes env :: "('p, 'c) env"
  assumes x: "is_assembly x" and Q: "\<And>e. Q e \<Longrightarrow> is_assembly e"
    and es: "\<And>a T. parseArgs (posixly_correct env) argv0 ws locals0 = ([], Return True a) \<Longrightarrow>
               precedes x Q (events (assemble env a) T)"
  shows "precedes x Q (snd (main env argv0 ws))"
proof (rule main_precedes)
  fix e assume "Q e" then show "is_assembly e" by (rule Q)
next
  fix a assume pa: "parseArgs (posixly_correct env) argv0 ws locals0 = ([], Return True a)"
  let ?T = "unroll (load_sequences env a) (unroll (configure env a) [])"
  have "\<forall>e\<in>set ?T. \<not> is_assembly e" by (simp add: input_not_assembly)
  then have "precedes x Q (?T @ events (assemble env a) ?T) = precedes x Q (events (assemble env a) ?T)"
    using x Q by (rule precedes_after_input)
  with es [OF pa, of ?T] show "precedes x Q (unroll (assemble env a) ?T)"
    by (simp add: unroll_events [of "assemble env a"])
qed

text \<open>
  Going through a list of statements without writing the growing list of past calls
  out: a statement either is the call looked for, or is neither that call nor one
  that must come after it.
\<close>

lemma order_hit: "(\<And>h. s h = x) \<Longrightarrow> precedes x Q (events (s # ss) T)"
  by simp

lemma order_skip:
  "(\<And>h. s h \<noteq> x \<and> \<not> Q (s h)) \<Longrightarrow> (\<And>T. precedes x Q (events ss T))
   \<Longrightarrow> precedes x Q (events (s # ss) T)"
  by simp

lemma order_nil: "precedes x Q (events [] T)"
  by simp


text \<open>The orders among the calls of lines 199 to 247 that the claims speak of.\<close>

lemma assemble_orders:
  "precedes RG_build ((=) Proc_simplify) (events (assemble env a) T)"
  "precedes Proc_simplify ((=) Aligner_alignReads) (events (assemble env a) T)"
  "precedes Aligner_alignReads is_infer (events (assemble env a) T)"
  "precedes MI_estimateCoverage is_resolve (events (assemble env a) T)"
  "precedes MI_removeUnsupportedEdges is_resolve (events (assemble env a) T)"
  "precedes MI_removeUnsupportedConnections is_resolve (events (assemble env a) T)"
  "precedes MI_separateHaplotypes is_resolve (events (assemble env a) T)"
  "precedes RR_findRepeats is_extend (events (assemble env a) T)"
  "precedes RR_resolveRepeats is_extend (events (assemble env a) T)"
  "precedes RR_fixLongEdges is_extend (events (assemble env a) T)"
  "precedes MI_estimateCoverage ((=) RR_resolveRepeats) (events (assemble env a) T)"
  "precedes MI_removeUnsupportedEdges ((=) RR_resolveRepeats) (events (assemble env a) T)"
  "precedes MI_removeUnsupportedConnections ((=) RR_resolveRepeats) (events (assemble env a) T)"
  "precedes MI_separateHaplotypes ((=) RR_resolveRepeats) (events (assemble env a) T)"
  "precedes MI_estimateCoverage ((=) MI_removeUnsupportedEdges) (events (assemble env a) T)"
  "precedes MI_removeUnsupportedEdges ((=) MI_removeUnsupportedConnections) (events (assemble env a) T)"
  "precedes MI_removeUnsupportedConnections ((=) MI_separateHaplotypes) (events (assemble env a) T)"
  "precedes RR_findRepeats ((=) RR_resolveRepeats) (events (assemble env a) T)"
  "precedes RR_resolveRepeats ((=) RR_fixLongEdges) (events (assemble env a) T)"
  "precedes RR_findRepeats ((=) RR_fixLongEdges) (events (assemble env a) T)"
  "precedes RR_resolveRepeats ((=) Ext_generateUnbranchingPaths) (events (assemble env a) T)"
  "precedes RR_fixLongEdges ((=) Ext_generateUnbranchingPaths) (events (assemble env a) T)"
  "precedes Ext_generateUnbranchingPaths is_generateContigs (events (assemble env a) T)"
  "precedes Ext_generateUnbranchingPaths (is_final_output (outFolder a)) (events (assemble env a) T)"
  unfolding assemble_def
  by ((rule order_hit, (simp add: call_def; fail))
      | (rule order_skip,
          (simp add: call_def is_infer_def infer_passes_def is_resolve_def resolve_passes_def;
           fail)))+

lemma main_orders:
  "precedes RG_build ((=) Proc_simplify) (snd (main env argv0 ws))"
  "precedes Proc_simplify ((=) Aligner_alignReads) (snd (main env argv0 ws))"
  "precedes Aligner_alignReads is_infer (snd (main env argv0 ws))"
  "precedes MI_estimateCoverage is_resolve (snd (main env argv0 ws))"
  "precedes MI_removeUnsupportedEdges is_resolve (snd (main env argv0 ws))"
  "precedes MI_removeUnsupportedConnections is_resolve (snd (main env argv0 ws))"
  "precedes MI_separateHaplotypes is_resolve (snd (main env argv0 ws))"
  "precedes RR_findRepeats is_extend (snd (main env argv0 ws))"
  "precedes RR_resolveRepeats is_extend (snd (main env argv0 ws))"
  "precedes RR_fixLongEdges is_extend (snd (main env argv0 ws))"
  "precedes MI_estimateCoverage ((=) RR_resolveRepeats) (snd (main env argv0 ws))"
  "precedes MI_removeUnsupportedEdges ((=) RR_resolveRepeats) (snd (main env argv0 ws))"
  "precedes MI_removeUnsupportedConnections ((=) RR_resolveRepeats) (snd (main env argv0 ws))"
  "precedes MI_separateHaplotypes ((=) RR_resolveRepeats) (snd (main env argv0 ws))"
  "precedes MI_estimateCoverage ((=) MI_removeUnsupportedEdges) (snd (main env argv0 ws))"
  "precedes MI_removeUnsupportedEdges ((=) MI_removeUnsupportedConnections) (snd (main env argv0 ws))"
  "precedes MI_removeUnsupportedConnections ((=) MI_separateHaplotypes) (snd (main env argv0 ws))"
  "precedes RR_findRepeats ((=) RR_resolveRepeats) (snd (main env argv0 ws))"
  "precedes RR_resolveRepeats ((=) RR_fixLongEdges) (snd (main env argv0 ws))"
  "precedes RR_findRepeats ((=) RR_fixLongEdges) (snd (main env argv0 ws))"
  "precedes RR_resolveRepeats ((=) Ext_generateUnbranchingPaths) (snd (main env argv0 ws))"
  "precedes RR_fixLongEdges ((=) Ext_generateUnbranchingPaths) (snd (main env argv0 ws))"
  "precedes Ext_generateUnbranchingPaths is_generateContigs (snd (main env argv0 ws))"
  by (rule assembly_order;
      simp add: assemble_events assemble_orders infer_is_assembly resolve_is_assembly
        extend_is_assembly generateContigs_is_assembly;
      auto simp: assemble_events)+

subsection \<open>Two runs, evaluated\<close>

lemma run_ok:
  "main env_ok ''flye-repeat'' argv_ok =
    (Returned 0,
     [Parameters_minimumOverlap 5000, Parameters_kmerSize 15,
      Parameters_numThreads 4, Logger_setDebugging False,
      Logger_debug ''Build date: Jan  1 2017 00:00:00'', Sync_with_stdio False,
      Config_load ''cfg'', Logger_info ''Reading sequences'',
      New_SequenceContainer SeqAssembly, New_SequenceContainer SeqReads,
      LoadFromFile SeqAssembly ''asm.fa'', LoadFromFile SeqReads ''r1.fa'',
      LoadFromFile SeqReads ''r2.fa'', New_RepeatGraph, New_GraphProcessor,
      New_ReadAligner, New_OutputGenerator,
      Logger_info ''Building repeat graph'', RG_build,
      OutputDot 19 ''out/graph_raw.dot'', Proc_simplify,
      Logger_info ''Aligning reads to the graph'', Aligner_alignReads,
      New_MultiplicityInferer, MI_estimateCoverage, MI_removeUnsupportedEdges,
      MI_removeUnsupportedConnections, MI_separateHaplotypes,
      Logger_info ''Resolving repeats'', New_RepeatResolver, RR_findRepeats,
      OutputDot 31 ''out/graph_before_rr.dot'',
      OutputGfa 32 ''out/graph_before_rr.gfa'',
      OutputFasta 33 ''out/graph_before_rr.fasta'', RR_resolveRepeats,
      RR_fixLongEdges, OutputDot 36 ''out/graph_after_rr.dot'',
      Logger_info ''Generating contigs'', New_ContigExtender 1038,
      Ext_generateUnbranchingPaths, Ext_generateContigs False,
      Ext_outputContigs ''out/graph_paths.fasta'',
      Ext_outputStatsTable ''out/contigs_stats.txt'',
      Ext_outputScaffoldConnections ''out/scaffolds_links.txt'',
      DumpRepeats 139 ''out/repeats_dump.txt'',
      OutputDot 139 ''out/graph_final.dot'',
      OutputFasta 139 ''out/graph_final.fasta'',
      OutputGfa 139 ''out/graph_final.gfa''])"
  by (simp add: main_def parseArgs_def env_ok_def argv_ok_def locals0_def optString_def
      switch_opt_def atoi_def strtol_def int_of_long_def size_t_of_int_def isspace_def
      isdigit_def
      configure_def load_sequences_def assemble_def call_def thrown_def)

lemma run_bad:
  "main env_bad ''flye-repeat'' argv_ok =
    (Returned 1,
     [Parameters_minimumOverlap 5000, Parameters_kmerSize 15,
      Parameters_numThreads 4, Logger_setDebugging False,
      Logger_debug ''Build date: Jan  1 2017 00:00:00'', Sync_with_stdio False,
      Config_load ''cfg'', Logger_info ''Reading sequences'',
      New_SequenceContainer SeqAssembly, New_SequenceContainer SeqReads,
      LoadFromFile SeqAssembly ''asm.fa'', LoadFromFile SeqReads ''r1.fa'',
      LoadFromFile SeqReads ''r2.fa'', Logger_error ''bad record''])"
  by (simp add: main_def parseArgs_def env_bad_def env_ok_def argv_ok_def locals0_def optString_def
      switch_opt_def atoi_def strtol_def int_of_long_def size_t_of_int_def isspace_def
      isdigit_def
      configure_def load_sequences_def assemble_def call_def thrown_def)

lemma parse_ok:
  "parseArgs (posixly_correct env_ok) ''flye-repeat'' argv_ok locals0 =
     ([], Return True \<lparr>numThreads = 4, debug = False, graphContinue = False,
                       minOverlap = 5000, kmerSize = 15, logFile = [],
                       inAssembly = ''asm.fa'', readsFasta = ''r1.fa,r2.fa'',
                       outFolder = ''out'', configPath = ''cfg''\<rparr>)"
  by (simp add: parseArgs_def env_ok_def argv_ok_def locals0_def optString_def
      switch_opt_def atoi_def strtol_def int_of_long_def size_t_of_int_def isspace_def
      isdigit_def)

subsection \<open>The values parseArgs leaves\<close>

lemma switch_opt_fields:
  assumes "switch_opt opt optarg a = Some a'"
  shows "(opt \<noteq> CHR ''v'' \<longrightarrow> minOverlap a' = minOverlap a) \<and>
         (opt \<noteq> CHR ''k'' \<longrightarrow> kmerSize a' = kmerSize a) \<and>
         (opt \<noteq> CHR ''t'' \<longrightarrow> numThreads a' = numThreads a)"
  using assms by (auto simp: switch_opt_def split: if_splits)

lemma opt_loop_fields:
  assumes "opt_loop opts a = Some a'"
  shows "(CHR ''v'' \<notin> fst ` set opts \<longrightarrow> minOverlap a' = minOverlap a) \<and>
         (CHR ''k'' \<notin> fst ` set opts \<longrightarrow> kmerSize a' = kmerSize a) \<and>
         (CHR ''t'' \<notin> fst ` set opts \<longrightarrow> numThreads a' = numThreads a)"
  using assms
proof (induction opts arbitrary: a)
  case Nil
  then show ?case by simp
next
  case (Cons p opts)
  obtain opt optarg where p: "p = (opt, optarg)" by (cases p)
  from Cons.prems p obtain a1 where s: "switch_opt opt optarg a = Some a1"
    and l: "opt_loop opts a1 = Some a'" by (auto split: option.splits)
  from switch_opt_fields [OF s] Cons.IH [OF l] p show ?case by auto
qed

lemma switch_opt_same:
  assumes "switch_opt opt optarg a = Some a'"
    and "minOverlap b = minOverlap a" "kmerSize b = kmerSize a" "numThreads b = numThreads a"
  shows "\<exists>b'. switch_opt opt optarg b = Some b' \<and> minOverlap b' = minOverlap a' \<and>
              kmerSize b' = kmerSize a' \<and> numThreads b' = numThreads a'"
  using assms by (auto simp: switch_opt_def split: if_splits)

lemma opt_loop_same:
  assumes "opt_loop opts a = Some a'"
    and "minOverlap b = minOverlap a" "kmerSize b = kmerSize a" "numThreads b = numThreads a"
  shows "\<exists>b'. opt_loop opts b = Some b' \<and> minOverlap b' = minOverlap a' \<and>
              kmerSize b' = kmerSize a' \<and> numThreads b' = numThreads a'"
  using assms
proof (induction opts arbitrary: a b)
  case Nil
  then show ?case by simp
next
  case (Cons p opts)
  obtain opt optarg where p: "p = (opt, optarg)" by (cases p)
  from Cons.prems(1) p obtain a1 where s: "switch_opt opt optarg a = Some a1"
    and l: "opt_loop opts a1 = Some a'" by (auto split: option.splits)
  from switch_opt_same [OF s Cons.prems(2,3,4)] obtain b1
    where sb: "switch_opt opt optarg b = Some b1" and eq: "minOverlap b1 = minOverlap a1"
      "kmerSize b1 = kmerSize a1" "numThreads b1 = numThreads a1" by blast
  from Cons.IH [OF l eq] sb p show ?case by simp
qed

lemma parseArgs_Return_True:
  assumes "parseArgs posix argv0 ws a0 = (u, Return True a)"
  obtains a2 w0 w1 w2 w3 where
    "opt_loop (fst (getopt_all posix ws))
       (a0\<lparr>numThreads := 1, debug := False, graphContinue := False,
           minOverlap := 5000, kmerSize := 15\<rparr>) = Some a2"
    "snd (getopt_all posix ws) = [w0, w1, w2, w3]"
    "a = a2\<lparr>inAssembly := w0, readsFasta := w1, outFolder := w2, configPath := w3\<rparr>"
    "u = []"
  using assms
  by (auto simp: parseArgs_def Let_def split: prod.splits option.splits list.splits)

lemma parseArgs_values:
  assumes "parseArgs posix argv0 ws a0 = (u, Return True a)"
  shows "(CHR ''v'' \<notin> fst ` set (fst (getopt_all posix ws)) \<longrightarrow> minOverlap a = 5000) \<and>
         (CHR ''k'' \<notin> fst ` set (fst (getopt_all posix ws)) \<longrightarrow> kmerSize a = 15) \<and>
         (CHR ''t'' \<notin> fst ` set (fst (getopt_all posix ws)) \<longrightarrow> numThreads a = 1)"
proof -
  from assms obtain a2 w0 w1 w2 w3 where
    l: "opt_loop (fst (getopt_all posix ws))
       (a0\<lparr>numThreads := 1, debug := False, graphContinue := False,
           minOverlap := 5000, kmerSize := 15\<rparr>) = Some a2"
    and a: "a = a2\<lparr>inAssembly := w0, readsFasta := w1, outFolder := w2, configPath := w3\<rparr>"
    by (rule parseArgs_Return_True)
  from opt_loop_fields [OF l] a show ?thesis by simp
qed

lemma parseArgs_any_start:
  assumes "parseArgs posix argv0 ws a0 = (u, Return True a)"
  shows "\<exists>b. parseArgs posix argv0 ws b0 = ([], Return True b) \<and> minOverlap b = minOverlap a \<and>
             kmerSize b = kmerSize a \<and> numThreads b = numThreads a"
proof -
  from assms obtain a2 w0 w1 w2 w3 where
    l: "opt_loop (fst (getopt_all posix ws))
       (a0\<lparr>numThreads := 1, debug := False, graphContinue := False,
           minOverlap := 5000, kmerSize := 15\<rparr>) = Some a2"
    and r: "snd (getopt_all posix ws) = [w0, w1, w2, w3]"
    and a: "a = a2\<lparr>inAssembly := w0, readsFasta := w1, outFolder := w2, configPath := w3\<rparr>"
    by (rule parseArgs_Return_True)
  from opt_loop_same [OF l, of "b0\<lparr>numThreads := 1, debug := False, graphContinue := False,
           minOverlap := 5000, kmerSize := 15\<rparr>"]
  obtain b2 where b: "opt_loop (fst (getopt_all posix ws))
       (b0\<lparr>numThreads := 1, debug := False, graphContinue := False,
           minOverlap := 5000, kmerSize := 15\<rparr>) = Some b2"
    and eq: "minOverlap b2 = minOverlap a2" "kmerSize b2 = kmerSize a2"
       "numThreads b2 = numThreads a2" by auto
  have "parseArgs posix argv0 ws b0 =
     ([], Return True (b2\<lparr>inAssembly := w0, readsFasta := w1, outFolder := w2, configPath := w3\<rparr>))"
    using b r by (cases "getopt_all posix ws") (simp add: parseArgs_def)
  with eq a show ?thesis by simp
qed

lemma configure_stores:
  assumes "run env (configure env a) [] = (r, tr)"
  shows "prefix [Parameters_minimumOverlap (minOverlap a), Parameters_kmerSize (kmerSize a),
                 Parameters_numThreads (numThreads a)] tr"
proof -
  obtain ss where ss: "configure env a =
      call (Parameters_minimumOverlap (minOverlap a)) # call (Parameters_kmerSize (kmerSize a))
      # call (Parameters_numThreads (numThreads a)) # ss"
    by (simp add: configure_def)
  with assms have "run env ss [Parameters_minimumOverlap (minOverlap a),
      Parameters_kmerSize (kmerSize a), Parameters_numThreads (numThreads a)] = (r, tr)"
    by (simp add: call_def thrown_def)
  from run_extends [OF this] show ?thesis by (auto simp: prefix_def)
qed

lemma main_extends_configure:
  fixes env :: "('p, 'c) env"
  assumes "main env argv0 ws = (st, tr)"
    and "parseArgs (posixly_correct env) argv0 ws locals0 = (u, Return True a)"
  shows "\<exists>r1 tr1. run env (configure env a) [] = (r1, tr1) \<and> prefix tr1 tr"
proof -
  from main_run [OF assms(1)] assms(2) obtain r1 tr1
    where r1: "run env (configure env a) [] = (r1, tr1)"
      and c: "tr = tr1 \<or> (\<exists>r2 tr2. run env (load_sequences env a) tr1 = (r2, tr2) \<and>
            (tr = tr2 \<or> (\<exists>what. tr = tr2 @ [Logger_error what])
             \<or> (\<exists>r3. run env (assemble env a) tr2 = (r3, tr))))"
    by auto
  from c have "prefix tr1 tr"
  proof
    assume "tr = tr1" then show ?thesis by simp
  next
    assume "\<exists>r2 tr2. run env (load_sequences env a) tr1 = (r2, tr2) \<and>
            (tr = tr2 \<or> (\<exists>what. tr = tr2 @ [Logger_error what])
             \<or> (\<exists>r3. run env (assemble env a) tr2 = (r3, tr)))"
    then obtain r2 tr2 where r2: "run env (load_sequences env a) tr1 = (r2, tr2)"
      and d: "tr = tr2 \<or> (\<exists>what. tr = tr2 @ [Logger_error what])
             \<or> (\<exists>r3. run env (assemble env a) tr2 = (r3, tr))" by blast
    from run_extends [OF r2] have p12: "prefix tr1 tr2" by (auto simp: prefix_def)
    from d have "prefix tr2 tr" by (auto dest: run_extends simp: prefix_def)
    with p12 show ?thesis by (rule prefix_order.trans)
  qed
  with r1 show ?thesis by blast
qed

subsection \<open>Loading the sequences\<close>

lemma run_all:
  assumes r: "run env ss tr0 = (r, tr)" and P: "\<And>s h. s \<in> set ss \<Longrightarrow> P (s h)"
    and before: "\<forall>e\<in>set tr0. P e"
  shows "\<forall>e\<in>set tr. P e"
proof
  fix e assume "e \<in> set tr"
  with run_prefix_unroll [OF r] have "e \<in> set (unroll ss tr0)"
    by (auto simp: prefix_def)
  from set_unroll [OF this] P before show "P e" by auto
qed

lemma configure_no_load: "s \<in> set (configure env a) \<Longrightarrow> s h \<noteq> LoadFromFile c f"
  by (auto simp: configure_def call_def split: if_splits)

lemma assemble_no_load: "s \<in> set (assemble env a) \<Longrightarrow> s h \<noteq> LoadFromFile c f"
  by (auto simp: assemble_def call_def)

lemma load_not_glue: "s \<in> set (load_sequences env a) \<Longrightarrow> \<not> is_glue (s h)"
  by (auto simp: load_sequences_def call_def)

lemma loaded_append: "loaded c (xs @ ys) = loaded c xs @ loaded c ys"
  by (induction c xs rule: loaded.induct) simp_all

lemma loaded_no_load: "\<forall>e\<in>set xs. \<forall>c' f. e \<noteq> LoadFromFile c' f \<Longrightarrow> loaded c xs = []"
  by (induction c xs rule: loaded.induct) simp_all

lemma loaded_reads: "loaded SeqReads (map (LoadFromFile SeqReads) fs) = fs"
  by (induction fs) simp_all

lemma loaded_assembly: "loaded SeqAssembly (map (LoadFromFile SeqReads) fs) = []"
  by (induction fs) simp_all


lemma call_apply: "call e h = e"
  by (simp add: call_def)

lemma run_calls:
  "run env (map call es) tr0 = (r, tr) \<Longrightarrow>
   \<exists>n\<le>length es. tr = tr0 @ take n es \<and> (r = None \<longrightarrow> n = length es)"
proof (induction es arbitrary: tr0)
  case Nil
  then show ?case by simp
next
  case (Cons e es)
  show ?case
  proof (cases "thrown env tr0 e")
    case (Some x)
    then have "run env (map call (e # es)) tr0 = (Some x, tr0 @ [e])"
      by (simp add: call_apply)
    with Cons.prems have "r = Some x" "tr = tr0 @ [e]" by simp_all
    then show ?thesis by (intro exI [of _ 1]) simp
  next
    case None
    then have "run env (map call (e # es)) tr0 = run env (map call es) (tr0 @ [e])"
      by (simp add: call_apply)
    with Cons.prems have "run env (map call es) (tr0 @ [e]) = (r, tr)" by simp
    from Cons.IH [OF this] obtain n where "n \<le> length es" "tr = (tr0 @ [e]) @ take n es"
      "r = None \<longrightarrow> n = length es" by blast
    then show ?thesis by (intro exI [of _ "Suc n"]) simp
  qed
qed

lemma load_sequences_calls:
  "load_sequences env a =
     map call (LoadFromFile SeqAssembly (inAssembly a)
               # map (LoadFromFile SeqReads) (splitString env (readsFasta a) CHR '',''))"
  by (simp add: load_sequences_def comp_def)

lemma loaded_reads_take:
  "loaded SeqReads (take k (map (LoadFromFile SeqReads) fs)) = take k fs"
proof (induction fs arbitrary: k)
  case Nil
  then show ?case by simp
next
  case (Cons f fs)
  then show ?case by (cases k) simp_all
qed

lemma loaded_assembly_take:
  "loaded SeqAssembly (take k (map (LoadFromFile SeqReads) fs)) = []"
proof (induction fs arbitrary: k)
  case Nil
  then show ?case by simp
next
  case (Cons f fs)
  then show ?case by (cases k) simp_all
qed

lemma loaded_take_reads:
  "loaded SeqReads (take n (LoadFromFile SeqAssembly x # map (LoadFromFile SeqReads) fs))
     = take (n - 1) fs"
  by (cases n) (simp_all add: loaded_reads_take)

lemma loaded_take_assembly:
  "loaded SeqAssembly (take n (LoadFromFile SeqAssembly x # map (LoadFromFile SeqReads) fs))
     = (if n = 0 then [] else [x])"
  by (cases n) (simp_all add: loaded_assembly_take)

text \<open>What the containers have received after the statements of the \<open>try\<close> block.\<close>

lemma loaded_after_loading:
  fixes env :: "('p, 'c) env"
  assumes r1: "run env (configure env a) [] = (None, tr1)"
    and r2: "run env (load_sequences env a) tr1 = (r2, tr2)"
  shows "prefix (loaded SeqReads tr2) (splitString env (readsFasta a) CHR '','')"
    and "prefix (loaded SeqAssembly tr2) [inAssembly a]"
    and "r2 = None \<Longrightarrow> loaded SeqReads tr2 = splitString env (readsFasta a) CHR '',''"
    and "r2 = None \<Longrightarrow> loaded SeqAssembly tr2 = [inAssembly a]"
proof -
  let ?fs = "splitString env (readsFasta a) CHR '',''"
  let ?L = "LoadFromFile SeqAssembly (inAssembly a) # map (LoadFromFile SeqReads) ?fs
              :: ('p, 'c) event list"
  have "\<forall>e\<in>set tr1. \<forall>c f. e \<noteq> LoadFromFile c f"
    by (rule run_all [OF r1]) (simp_all add: configure_no_load)
  then have l1: "loaded c tr1 = []" for c by (rule loaded_no_load)
  from r2 have "run env (map call ?L) tr1 = (r2, tr2)" by (simp only: load_sequences_calls)
  from run_calls [OF this] obtain n where n: "n \<le> length ?L" "tr2 = tr1 @ take n ?L"
    "r2 = None \<longrightarrow> n = length ?L" by blast
  have reads: "loaded SeqReads tr2 = take (n - 1) ?fs"
    unfolding n(2) loaded_append l1 loaded_take_reads by simp
  have asm: "loaded SeqAssembly tr2 = (if n = 0 then [] else [inAssembly a])"
    unfolding n(2) loaded_append l1 loaded_take_assembly by simp
  show "prefix (loaded SeqReads tr2) ?fs" unfolding reads by (rule take_is_prefix)
  show "prefix (loaded SeqAssembly tr2) [inAssembly a]" unfolding asm by simp
  show "loaded SeqReads tr2 = ?fs" if "r2 = None"
  proof -
    from that n(3) have "n = Suc (length ?fs)" by simp
    with reads show ?thesis by simp
  qed
  show "loaded SeqAssembly tr2 = [inAssembly a]" if "r2 = None"
  proof -
    from that n(3) have "n = Suc (length ?fs)" by simp
    with asm show ?thesis by simp
  qed
qed


lemma run_new:
  assumes "run env ss tr0 = (r, tr)" and "\<And>s h. s \<in> set ss \<Longrightarrow> P (s h)"
  shows "\<exists>es. tr = tr0 @ es \<and> (\<forall>e\<in>set es. P e)"
  using assms
proof (induction ss arbitrary: tr0)
  case Nil
  then show ?case by simp
next
  case (Cons s ss)
  have here: "P (s tr0)" using Cons.prems(2) by simp
  show ?case
  proof (cases "thrown env tr0 (s tr0)")
    case (Some x)
    with Cons.prems(1) have "tr = tr0 @ [s tr0]" by simp
    with here show ?thesis by simp
  next
    case None
    with Cons.prems(1) have "run env ss (tr0 @ [s tr0]) = (r, tr)" by simp
    from Cons.IH [OF this] Cons.prems(2) obtain es
      where "tr = (tr0 @ [s tr0]) @ es" "\<forall>e\<in>set es. P e" by auto
    with here show ?thesis by (intro exI [of _ "s tr0 # es"]) simp
  qed
qed

subsection \<open>The final outputs\<close>

lemma closes_all: "list_all Q xs \<Longrightarrow> closes Q xs"
  by (induction xs) auto

lemma closes_prefix: "closes Q (xs @ ys) \<Longrightarrow> closes Q xs"
  by (induction xs) (auto split: if_splits)

lemma closes_none: "\<forall>x\<in>set xs. \<not> Q x \<Longrightarrow> closes Q xs"
  by (induction xs) auto

lemma closes_skip: "\<forall>x\<in>set xs. \<not> Q x \<Longrightarrow> closes Q (xs @ ys) = closes Q ys"
  by (induction xs) auto

lemma closes_nth:
  "closes Q xs \<Longrightarrow> i \<le> k \<Longrightarrow> k < length xs \<Longrightarrow> Q (xs ! i) \<Longrightarrow> Q (xs ! k)"
proof (induction xs arbitrary: i k)
  case Nil
  then show ?case by simp
next
  case (Cons x xs)
  show ?case
  proof (cases "Q x")
    case True
    with Cons.prems(1) have "\<forall>y\<in>set (x # xs). Q y" by (simp add: list_all_iff)
    with Cons.prems(3) show ?thesis using nth_mem by blast
  next
    case False
    with Cons.prems(4) obtain i' where i: "i = Suc i'" by (cases i) auto
    with Cons.prems(2) obtain k' where k: "k = Suc k'" by (cases k) auto
    from False Cons.prems(1) have "closes Q xs" by simp
    from Cons.IH [OF this, of i' k'] Cons.prems i k show ?thesis by simp
  qed
qed

lemma closes_events_skip:
  "(\<And>h. \<not> Q (s h)) \<Longrightarrow> (\<And>T. closes Q (events ss T)) \<Longrightarrow> closes Q (events (s # ss) T)"
  by simp

lemma closes_events_hit:
  "(\<And>T. list_all Q (events ss T)) \<Longrightarrow> closes Q (events (s # ss) T)"
  by (simp add: closes_all)

lemma all_events_cons:
  "(\<And>h. Q (s h)) \<Longrightarrow> (\<And>T. list_all Q (events ss T)) \<Longrightarrow> list_all Q (events (s # ss) T)"
  by simp

lemma all_events_nil: "list_all Q (events [] T)"
  by simp

lemma assemble_closes: "closes (is_final_output (outFolder a)) (events (assemble env a) T)"
  unfolding assemble_def
  by ((rule closes_events_skip, (simp add: call_def; fail))
      | rule closes_events_hit
      | (rule all_events_cons, (simp; fail))
      | rule all_events_nil)+

text \<open>In every trace of main the final outputs are the last calls.\<close>

lemma main_closes:
  fixes env :: "('p, 'c) env"
  assumes pa: "parseArgs (posixly_correct env) argv0 ws locals0 = (u, Return True a)"
    and m: "main env argv0 ws = (st, tr)"
  shows "closes (is_final_output (outFolder a)) tr"
proof -
  let ?Q = "is_final_output (outFolder a) :: ('p, 'c) event \<Rightarrow> bool"
  have nq: "\<not> ?Q e" if "\<not> is_assembly e" for e
    using that final_output_is_assembly by blast
  from main_shape [OF m] pa consider
      (usage) "tr = [PrintUsage argv0]"
    | (pre) "prefix tr (unroll (assemble env a)
                     (unroll (load_sequences env a) (unroll (configure env a) [])))"
    | (caught) tr2 what
      where "tr = tr2 @ [Logger_error what]"
        "prefix tr2 (unroll (load_sequences env a) (unroll (configure env a) []))"
    by auto
  then show ?thesis
  proof cases
    case usage
    then show ?thesis by simp
  next
    case pre
    let ?T = "unroll (load_sequences env a) (unroll (configure env a) [])"
    have "\<forall>e\<in>set ?T. \<not> ?Q e" using nq by (simp add: input_not_assembly)
    then have "closes ?Q (?T @ events (assemble env a) ?T)"
      by (simp add: closes_skip assemble_closes)
    with pre show ?thesis
      by (auto simp: prefix_def unroll_events [of "assemble env a"] dest: closes_prefix)
  next
    case (caught tr2 what)
    have "\<not> is_assembly e" if "e \<in> set tr2" for e
      using that caught(2) input_not_assembly [of e env a] by (auto simp: prefix_def)
    then have "\<forall>e\<in>set tr. \<not> ?Q e"
      using caught(1) nq by auto
    then show ?thesis by (rule closes_none)
  qed
qed

lemma final_output_has_paths: "is_final_output dir e \<Longrightarrow> paths_arg e \<noteq> None"
  by (cases e) simp_all

text \<open>
  When the calls on the output generator leave the result of the accessor as it was,
  the accessor returns the same from the first final output on.
\<close>

lemma accessor_unchanged:
  assumes acc: "\<And>h e. paths_arg e \<noteq> None \<Longrightarrow>
                  getUnbranchingPaths env (h @ [e]) = getUnbranchingPaths env h"
    and c: "closes (is_final_output dir) tr" and i: "is_final_output dir (tr ! i)"
    and ij: "i \<le> j" and j: "j < length tr"
  shows "getUnbranchingPaths env (take j tr) = getUnbranchingPaths env (take i tr)"
  using ij j
proof (induction j)
  case 0
  then show ?case by simp
next
  case (Suc k)
  show ?case
  proof (cases "i = Suc k")
    case True
    then show ?thesis by simp
  next
    case False
    with Suc.prems have ik: "i \<le> k" and k: "k < length tr" by simp_all
    from closes_nth [OF c ik k i] have "paths_arg (tr ! k) \<noteq> None"
      by (rule final_output_has_paths)
    from acc [OF this, of "take k tr"] k
    have "getUnbranchingPaths env (take (Suc k) tr) = getUnbranchingPaths env (take k tr)"
      by (simp add: take_Suc_conv_app_nth)
    with Suc.IH [OF ik k] show ?thesis by simp
  qed
qed

section \<open>The claims\<close>

text \<open>
  C8, with the condition that no \<open>-h\<close> is given. Exactly four positional arguments are
  required. When \<open>getopt\<close> reports no option \<open>-h\<close>, so that the option loop runs to
  its end, and the number of words left after the options differs from 4, \<open>parseArgs\<close> prints the usage and returns false, and
  \<open>main\<close> returns 1 having made no other call: no file is loaded and no component is
  constructed. Without the condition on \<open>-h\<close> the statement fails: on the single word
  \<open>-h\<close> no word is left after the options, and the process leaves inside the loop with
  exit status 0.
\<close>

theorem wrong_argument_count:
  assumes "CHR ''h'' \<notin> fst ` set (fst (getopt_all (posixly_correct env) ws))"
    and "length (snd (getopt_all (posixly_correct env) ws)) \<noteq> 4"
  shows "(\<exists>a. parseArgs (posixly_correct env) argv0 ws locals0 = ([argv0], Return False a))
         \<and> main env argv0 ws = (Returned 1, [PrintUsage argv0])"
proof -
  obtain opts rest where g: "getopt_all (posixly_correct env) ws = (opts, rest)"
    by (cases "getopt_all (posixly_correct env) ws")
  let ?a1 = "locals0\<lparr>numThreads := 1, debug := False, graphContinue := False,
                     minOverlap := 5000, kmerSize := 15\<rparr>"
  from assms(1) g obtain a2 where a2: "opt_loop opts ?a1 = Some a2"
    using opt_loop_None [of opts ?a1] by (cases "opt_loop opts ?a1") auto
  from assms(2) g have "length rest \<noteq> 4" by simp
  then have "(case rest of [w0, w1, w2, w3] \<Rightarrow> f w0 w1 w2 w3 | _ \<Rightarrow> d) = d" for f and d :: "string list \<times> parsed"
    by (auto split: list.splits)
  with g a2 have p: "parseArgs (posixly_correct env) argv0 ws locals0 = ([argv0], Return False a2)"
    by (simp add: parseArgs_def)
  then show ?thesis by (simp add: main_def)
qed

theorem wrong_argument_count_witness:
  "CHR ''h'' \<notin> fst ` set (fst (getopt_all (posixly_correct env_ok) [''-t'', ''4'', ''asm.fa'', ''reads.fa'', ''out'']))
   \<and> length (snd (getopt_all (posixly_correct env_ok) [''-t'', ''4'', ''asm.fa'', ''reads.fa'', ''out''])) \<noteq> 4
   \<and> main env_ok ''flye-repeat'' [''-t'', ''4'', ''asm.fa'', ''reads.fa'', ''out'']
       = (Returned 1, [PrintUsage ''flye-repeat''])"
  using wrong_argument_count [of env_ok "[''-t'', ''4'', ''asm.fa'', ''reads.fa'', ''out'']" "''flye-repeat''"]
  by (simp add: env_ok_def optString_def)

theorem wrong_argument_count_counterexample:
  "length (snd (getopt_all (posixly_correct env_ok) [''-h''])) \<noteq> 4 \<and>
   main env_ok ''flye-repeat'' [''-h''] = (Exited 0, [PrintUsage ''flye-repeat'']) \<and>
   fst (main env_ok ''flye-repeat'' [''-h'']) \<noteq> Returned 1"
  by (simp add: main_def parseArgs_def env_ok_def locals0_def optString_def switch_opt_def)

text \<open>
  C10. When \<open>getopt\<close> reports the option \<open>-h\<close>, the process ends with exit status 0 and the
  only call made is the printing of the usage: the words left are not counted, no file
  is opened and no component is constructed.
\<close>

theorem help_exits_zero:
  assumes "CHR ''h'' \<in> fst ` set (fst (getopt_all (posixly_correct env) ws))"
  shows "main env argv0 ws = (Exited 0, [PrintUsage argv0])"
proof -
  obtain opts rest where g: "getopt_all (posixly_correct env) ws = (opts, rest)"
    by (cases "getopt_all (posixly_correct env) ws")
  with assms have "opt_loop opts a1 = None" for a1 by (simp add: opt_loop_None)
  with g have "parseArgs (posixly_correct env) argv0 ws locals0 = ([argv0], Exit 0)"
    by (simp add: parseArgs_def)
  then show ?thesis by (simp add: main_def)
qed

theorem help_exits_zero_witness:
  "CHR ''h'' \<in> fst ` set (fst (getopt_all (posixly_correct env_ok) [''-t'', ''4'', ''-dh'', ''asm.fa'']))
   \<and> main env_ok ''flye-repeat'' [''-t'', ''4'', ''-dh'', ''asm.fa'']
       = (Exited 0, [PrintUsage ''flye-repeat''])"
  using help_exits_zero [of env_ok "[''-t'', ''4'', ''-dh'', ''asm.fa'']" "''flye-repeat''"]
  by (simp add: env_ok_def optString_def)

text \<open>
  C1. The phases run in the order build, simplify, align, infer, resolve, extend: in
  every trace of main, \<open>rg.build()\<close> is called before \<open>proc.simplify()\<close>, that before
  \<open>aligner.alignReads()\<close>, that before any pass of the multiplicity inferer, each of
  these passes before any pass of the resolver, and each pass of the resolver before
  anything is done with the contig extender.
\<close>

theorem phases_in_order:
  "precedes RG_build ((=) Proc_simplify) (snd (main env argv0 ws)) \<and>
   precedes Proc_simplify ((=) Aligner_alignReads) (snd (main env argv0 ws)) \<and>
   precedes Aligner_alignReads is_infer (snd (main env argv0 ws)) \<and>
   list_all (\<lambda>m. precedes m is_resolve (snd (main env argv0 ws))) infer_passes \<and>
   list_all (\<lambda>r. precedes r is_extend (snd (main env argv0 ws))) resolve_passes"
  by (simp add: main_orders infer_passes_def resolve_passes_def)

theorem phases_in_order_witness:
  "list_ex is_extend (snd (main env_ok ''flye-repeat'' argv_ok)) \<and>
   precedes RG_build ((=) Proc_simplify) (snd (main env_ok ''flye-repeat'' argv_ok)) \<and>
   precedes Proc_simplify ((=) Aligner_alignReads) (snd (main env_ok ''flye-repeat'' argv_ok)) \<and>
   precedes Aligner_alignReads is_infer (snd (main env_ok ''flye-repeat'' argv_ok)) \<and>
   list_all (\<lambda>m. precedes m is_resolve (snd (main env_ok ''flye-repeat'' argv_ok))) infer_passes \<and>
   list_all (\<lambda>r. precedes r is_extend (snd (main env_ok ''flye-repeat'' argv_ok))) resolve_passes"
proof -
  have "list_ex is_extend (snd (main env_ok ''flye-repeat'' argv_ok))"
    by (simp add: run_ok)
  with phases_in_order [of env_ok "''flye-repeat''" argv_ok] show ?thesis
    by simp
qed

text \<open>
  C4. The four passes of the multiplicity inferer are called in the order
  \<open>estimateCoverage\<close>, \<open>removeUnsupportedEdges\<close>, \<open>removeUnsupportedConnections\<close>,
  \<open>separateHaplotypes\<close>, and each of them before \<open>resolver.resolveRepeats()\<close>: a trace
  in which \<open>resolveRepeats\<close> stands has all four before it, in that order.
\<close>

theorem inference_before_resolution:
  "precedes MI_estimateCoverage ((=) MI_removeUnsupportedEdges) (snd (main env argv0 ws)) \<and>
   precedes MI_removeUnsupportedEdges ((=) MI_removeUnsupportedConnections)
     (snd (main env argv0 ws)) \<and>
   precedes MI_removeUnsupportedConnections ((=) MI_separateHaplotypes)
     (snd (main env argv0 ws)) \<and>
   list_all (\<lambda>m. precedes m ((=) RR_resolveRepeats) (snd (main env argv0 ws))) infer_passes"
  by (simp add: main_orders infer_passes_def)

theorem inference_before_resolution_witness:
  "RR_resolveRepeats \<in> set (snd (main env_ok ''flye-repeat'' argv_ok)) \<and>
   precedes MI_estimateCoverage ((=) MI_removeUnsupportedEdges)
     (snd (main env_ok ''flye-repeat'' argv_ok)) \<and>
   precedes MI_removeUnsupportedEdges ((=) MI_removeUnsupportedConnections)
     (snd (main env_ok ''flye-repeat'' argv_ok)) \<and>
   precedes MI_removeUnsupportedConnections ((=) MI_separateHaplotypes)
     (snd (main env_ok ''flye-repeat'' argv_ok)) \<and>
   list_all (\<lambda>m. precedes m ((=) RR_resolveRepeats) (snd (main env_ok ''flye-repeat'' argv_ok)))
     infer_passes"
proof -
  have "RR_resolveRepeats \<in> set (snd (main env_ok ''flye-repeat'' argv_ok))"
    by (simp add: run_ok)
  with inference_before_resolution [of env_ok "''flye-repeat''" argv_ok] show ?thesis
    by simp
qed

text \<open>
  C5. The passes of the resolver are called in the order \<open>findRepeats\<close>,
  \<open>resolveRepeats\<close>, \<open>fixLongEdges\<close>: \<open>fixLongEdges\<close> only after \<open>resolveRepeats\<close>, and
  \<open>findRepeats\<close> before both.
\<close>

theorem resolver_passes_in_order:
  "precedes RR_findRepeats ((=) RR_resolveRepeats) (snd (main env argv0 ws)) \<and>
   precedes RR_resolveRepeats ((=) RR_fixLongEdges) (snd (main env argv0 ws)) \<and>
   precedes RR_findRepeats ((=) RR_fixLongEdges) (snd (main env argv0 ws))"
  by (simp add: main_orders)

theorem resolver_passes_in_order_witness:
  "RR_fixLongEdges \<in> set (snd (main env_ok ''flye-repeat'' argv_ok)) \<and>
   precedes RR_findRepeats ((=) RR_resolveRepeats) (snd (main env_ok ''flye-repeat'' argv_ok)) \<and>
   precedes RR_resolveRepeats ((=) RR_fixLongEdges) (snd (main env_ok ''flye-repeat'' argv_ok)) \<and>
   precedes RR_findRepeats ((=) RR_fixLongEdges) (snd (main env_ok ''flye-repeat'' argv_ok))"
proof -
  have "RR_fixLongEdges \<in> set (snd (main env_ok ''flye-repeat'' argv_ok))"
    by (simp add: run_ok)
  with resolver_passes_in_order [of env_ok "''flye-repeat''" argv_ok] show ?thesis
    by simp
qed

text \<open>
  C2. Whatever the variables hold when \<open>parseArgs\<close> is called, the values it returns
  are 5000 for the minimum overlap when \<open>getopt\<close> reports no \<open>-v\<close>, 15 for the k-mer
  size when it reports no \<open>-k\<close>, and 1 for the number of threads when it reports no
  \<open>-t\<close>. The first three calls of main store the returned values in \<open>Parameters\<close>, so
  each store comes before the construction of the repeat graph and before any other
  call of the assembly.
\<close>

theorem parameters_stored_first:
  fixes env :: "('p, 'c) env"
  assumes "parseArgs (posixly_correct env) argv0 ws a0 = (u, Return True a)"
  shows "(CHR ''v'' \<notin> fst ` set (fst (getopt_all (posixly_correct env) ws)) \<longrightarrow> minOverlap a = 5000) \<and>
         (CHR ''k'' \<notin> fst ` set (fst (getopt_all (posixly_correct env) ws)) \<longrightarrow> kmerSize a = 15) \<and>
         (CHR ''t'' \<notin> fst ` set (fst (getopt_all (posixly_correct env) ws)) \<longrightarrow> numThreads a = 1) \<and>
         prefix [Parameters_minimumOverlap (minOverlap a), Parameters_kmerSize (kmerSize a),
                 Parameters_numThreads (numThreads a)] (snd (main env argv0 ws)) \<and>
         list_all (\<lambda>p. precedes p is_assembly (snd (main env argv0 ws)))
           [Parameters_minimumOverlap (minOverlap a), Parameters_kmerSize (kmerSize a),
            Parameters_numThreads (numThreads a)]"
proof -
  let ?ps = "[Parameters_minimumOverlap (minOverlap a), Parameters_kmerSize (kmerSize a),
              Parameters_numThreads (numThreads a)] :: ('p, 'c) event list"
  from parseArgs_any_start [OF assms, of locals0] obtain b
    where b: "parseArgs (posixly_correct env) argv0 ws locals0 = ([], Return True b)"
      and eq: "minOverlap b = minOverlap a" "kmerSize b = kmerSize a" "numThreads b = numThreads a"
    by blast
  obtain st tr where m: "main env argv0 ws = (st, tr)" by (cases "main env argv0 ws")
  from main_extends_configure [OF m b] obtain r1 tr1
    where "run env (configure env b) [] = (r1, tr1)" "prefix tr1 tr" by blast
  with configure_stores [of env b r1 tr1] eq have p: "prefix ?ps tr"
    using prefix_order.trans by fastforce
  then obtain zs where "tr = ?ps @ zs" by (auto simp: prefix_def)
  then have "list_all (\<lambda>p. precedes p is_assembly tr) ?ps"
    by (simp add: is_assembly_def)
  with p m parseArgs_values [OF assms] show ?thesis by simp
qed

theorem parameters_stored_first_witness:
  "parseArgs (posixly_correct env_ok) ''flye-repeat'' argv_ok locals0 =
     ([], Return True \<lparr>numThreads = 4, debug = False, graphContinue = False,
                       minOverlap = 5000, kmerSize = 15, logFile = [],
                       inAssembly = ''asm.fa'', readsFasta = ''r1.fa,r2.fa'',
                       outFolder = ''out'', configPath = ''cfg''\<rparr>) \<and>
   CHR ''v'' \<notin> fst ` set (fst (getopt_all (posixly_correct env_ok) argv_ok)) \<and>
   CHR ''t'' \<in> fst ` set (fst (getopt_all (posixly_correct env_ok) argv_ok)) \<and>
   New_RepeatGraph \<in> set (snd (main env_ok ''flye-repeat'' argv_ok)) \<and>
   prefix [Parameters_minimumOverlap 5000, Parameters_kmerSize 15, Parameters_numThreads 4]
     (snd (main env_ok ''flye-repeat'' argv_ok)) \<and>
   list_all (\<lambda>p. precedes p is_assembly (snd (main env_ok ''flye-repeat'' argv_ok)))
     [Parameters_minimumOverlap 5000, Parameters_kmerSize 15, Parameters_numThreads 4]"
proof -
  have 1: "CHR ''v'' \<notin> fst ` set (fst (getopt_all (posixly_correct env_ok) argv_ok))"
    and 2: "CHR ''t'' \<in> fst ` set (fst (getopt_all (posixly_correct env_ok) argv_ok))"
    by (simp_all add: env_ok_def argv_ok_def optString_def)
  have 3: "New_RepeatGraph \<in> set (snd (main env_ok ''flye-repeat'' argv_ok))"
    by (simp add: run_ok)
  from parameters_stored_first [OF parse_ok] parse_ok 1 2 3 show ?thesis by simp
qed

text \<open>
  C6. The contig extender is constructed with the mean coverage of the multiplicity
  inferer: wherever a trace of main has the construction of the extender, its argument
  is what \<open>multInf.getMeanCoverage()\<close> returns after the calls made before it.
\<close>

theorem extender_gets_mean_coverage:
  fixes env :: "('p, 'c) env"
  assumes "main env argv0 ws = (st, tr)" and "i < length tr"
    and "tr ! i = New_ContigExtender c"
  shows "c = getMeanCoverage env (take i tr)"
proof -
  have "\<forall>i<length tr. \<forall>c. tr ! i = New_ContigExtender c \<longrightarrow> c = getMeanCoverage env (take i tr)"
    by (rule main_pointwise
          [where P = "\<lambda>h e. \<forall>c. e = New_ContigExtender c \<longrightarrow> c = getMeanCoverage env h",
           OF assms(1)])
       (auto simp: configure_def load_sequences_def assemble_def call_def)
  with assms(2,3) show ?thesis by blast
qed

theorem extender_gets_mean_coverage_witness:
  "main env_ok ''flye-repeat'' argv_ok = (Returned 0, snd (main env_ok ''flye-repeat'' argv_ok)) \<and>
   38 < length (snd (main env_ok ''flye-repeat'' argv_ok)) \<and>
   snd (main env_ok ''flye-repeat'' argv_ok) ! 38 = New_ContigExtender 1038 \<and>
   1038 = getMeanCoverage env_ok (take 38 (snd (main env_ok ''flye-repeat'' argv_ok)))"
proof -
  have 1: "main env_ok ''flye-repeat'' argv_ok = (Returned 0, snd (main env_ok ''flye-repeat'' argv_ok))"
    and 2: "38 < length (snd (main env_ok ''flye-repeat'' argv_ok))"
    and 3: "snd (main env_ok ''flye-repeat'' argv_ok) ! 38 = New_ContigExtender 1038"
    by (simp_all add: run_ok)
  from extender_gets_mean_coverage [OF 1 2 3] 1 2 3 show ?thesis by simp
qed

text \<open>
  C7. \<open>extender.generateUnbranchingPaths()\<close> is called after \<open>resolveRepeats\<close> and
  \<open>fixLongEdges\<close> and before \<open>generateContigs\<close>. The dump of the repeats and the final
  DOT, FASTA and GFA outputs are written after it, each from what
  \<open>extender.getUnbranchingPaths()\<close> returns at that moment, and they are the last calls
  of main: once the first of them is made, only they follow. So when a call on the
  output generator leaves the result of the accessor as it was, the four outputs are
  given the same paths.
\<close>

theorem unbranching_paths_feed_outputs:
  fixes env :: "('p, 'c) env"
  assumes pa: "parseArgs (posixly_correct env) argv0 ws locals0 = (u, Return True a)"
    and m: "main env argv0 ws = (st, tr)"
  shows "precedes RR_resolveRepeats ((=) Ext_generateUnbranchingPaths) tr \<and>
         precedes RR_fixLongEdges ((=) Ext_generateUnbranchingPaths) tr \<and>
         precedes Ext_generateUnbranchingPaths is_generateContigs tr \<and>
         precedes Ext_generateUnbranchingPaths (is_final_output (outFolder a)) tr \<and>
         (\<forall>i<length tr. is_final_output (outFolder a) (tr ! i) \<longrightarrow>
            paths_arg (tr ! i) = Some (getUnbranchingPaths env (take i tr))) \<and>
         closes (is_final_output (outFolder a)) tr \<and>
         ((\<forall>h e. paths_arg e \<noteq> None \<longrightarrow>
             getUnbranchingPaths env (h @ [e]) = getUnbranchingPaths env h) \<longrightarrow>
          (\<forall>i<length tr. \<forall>j<length tr.
             is_final_output (outFolder a) (tr ! i) \<longrightarrow> is_final_output (outFolder a) (tr ! j) \<longrightarrow>
             paths_arg (tr ! i) = paths_arg (tr ! j)))"
proof -
  have tr: "tr = snd (main env argv0 ws)" using m by simp
  have ord: "precedes Ext_generateUnbranchingPaths (is_final_output (outFolder a)) tr"
    unfolding tr
    by (rule assembly_order)
       (use pa in \<open>auto simp: assemble_events assemble_orders final_output_is_assembly\<close>)
  have each: "\<forall>i<length tr. is_final_output (outFolder a) (tr ! i) \<longrightarrow>
            paths_arg (tr ! i) = Some (getUnbranchingPaths env (take i tr))"
    by (rule main_pointwise
          [where P = "\<lambda>h e. is_final_output (outFolder a) e \<longrightarrow>
                              paths_arg e = Some (getUnbranchingPaths env h)",
           OF m])
       (use pa in \<open>auto simp: configure_def load_sequences_def assemble_def call_def\<close>)
  have cl: "closes (is_final_output (outFolder a)) tr"
    by (rule main_closes [OF pa m])
  have same: "paths_arg (tr ! i) = paths_arg (tr ! j)"
    if acc: "\<forall>h e. paths_arg e \<noteq> None \<longrightarrow>
               getUnbranchingPaths env (h @ [e]) = getUnbranchingPaths env h"
      and i: "i < length tr" "is_final_output (outFolder a) (tr ! i)"
      and j: "j < length tr" "is_final_output (outFolder a) (tr ! j)" for i j
  proof -
    have le: "getUnbranchingPaths env (take l tr) = getUnbranchingPaths env (take k tr)"
      if "k \<le> l" "l < length tr" "is_final_output (outFolder a) (tr ! k)" for k l
      by (rule accessor_unchanged [OF _ cl that(3) that(1) that(2)]) (use acc in blast)
    have "getUnbranchingPaths env (take i tr) = getUnbranchingPaths env (take j tr)"
    proof (cases "i \<le> j")
      case True
      from le [OF True j(1) i(2)] show ?thesis by simp
    next
      case False
      then have "j \<le> i" by simp
      from le [OF this i(1) j(2)] show ?thesis .
    qed
    with each i j show ?thesis by simp
  qed
  have o1: "precedes RR_resolveRepeats ((=) Ext_generateUnbranchingPaths) tr"
    and o2: "precedes RR_fixLongEdges ((=) Ext_generateUnbranchingPaths) tr"
    and o3: "precedes Ext_generateUnbranchingPaths is_generateContigs tr"
    by (simp_all add: tr main_orders)
  have all_same: "(\<forall>h e. paths_arg e \<noteq> None \<longrightarrow>
             getUnbranchingPaths env (h @ [e]) = getUnbranchingPaths env h) \<longrightarrow>
          (\<forall>i<length tr. \<forall>j<length tr.
             is_final_output (outFolder a) (tr ! i) \<longrightarrow> is_final_output (outFolder a) (tr ! j) \<longrightarrow>
             paths_arg (tr ! i) = paths_arg (tr ! j))"
    using same by blast
  show ?thesis
    by (intro conjI) (rule o1 o2 o3 ord each cl all_same)+
qed

theorem unbranching_paths_feed_outputs_witness:
  "list_all (\<lambda>e. e \<in> set (snd (main env_ok ''flye-repeat'' argv_ok)))
     [DumpRepeats 139 ''out/repeats_dump.txt'', OutputDot 139 ''out/graph_final.dot'',
      OutputFasta 139 ''out/graph_final.fasta'', OutputGfa 139 ''out/graph_final.gfa''] \<and>
   precedes Ext_generateUnbranchingPaths (is_final_output ''out'')
     (snd (main env_ok ''flye-repeat'' argv_ok)) \<and>
   list_all (\<lambda>i. is_final_output ''out'' (snd (main env_ok ''flye-repeat'' argv_ok) ! i) \<and>
      paths_arg (snd (main env_ok ''flye-repeat'' argv_ok) ! i)
        = Some (getUnbranchingPaths env_ok (take i (snd (main env_ok ''flye-repeat'' argv_ok)))))
     [44, 45, 46, 47] \<and>
   closes (is_final_output ''out'') (snd (main env_ok ''flye-repeat'' argv_ok)) \<and>
   list_all (\<lambda>i. paths_arg (snd (main env_ok ''flye-repeat'' argv_ok) ! i)
                  = paths_arg (snd (main env_ok ''flye-repeat'' argv_ok) ! 44))
     [45, 46, 47]"
proof -
  let ?tr = "snd (main env_ok ''flye-repeat'' argv_ok)"
  let ?a = "\<lparr>numThreads = 4, debug = False, graphContinue = False,
             minOverlap = 5000, kmerSize = 15, logFile = [],
             inAssembly = ''asm.fa'', readsFasta = ''r1.fa,r2.fa'',
             outFolder = ''out'', configPath = ''cfg''\<rparr>"
  have 1: "main env_ok ''flye-repeat'' argv_ok = (Returned 0, ?tr)"
    by (simp add: run_ok)
  have 2: "list_all (\<lambda>e. e \<in> set ?tr)
     [DumpRepeats 139 ''out/repeats_dump.txt'', OutputDot 139 ''out/graph_final.dot'',
      OutputFasta 139 ''out/graph_final.fasta'', OutputGfa 139 ''out/graph_final.gfa'']"
    by (simp add: run_ok)
  have l: "44 < length ?tr" "45 < length ?tr" "46 < length ?tr" "47 < length ?tr"
    by (simp_all add: run_ok)
  have f: "is_final_output ''out'' (?tr ! 44)" "is_final_output ''out'' (?tr ! 45)"
    "is_final_output ''out'' (?tr ! 46)" "is_final_output ''out'' (?tr ! 47)"
    by (simp_all add: run_ok)
  have acc: "\<forall>h e. paths_arg e \<noteq> None \<longrightarrow>
               getUnbranchingPaths env_ok (h @ [e]) = getUnbranchingPaths env_ok h"
    by (simp add: env_ok_def)
  have o: "outFolder ?a = ''out''" by simp
  note t = unbranching_paths_feed_outputs [OF parse_ok 1, unfolded o]
  note t4 = t [THEN conjunct2, THEN conjunct2, THEN conjunct2, THEN conjunct1]
  note t5 = t [THEN conjunct2, THEN conjunct2, THEN conjunct2, THEN conjunct2, THEN conjunct1,
               rule_format]
  note t6 = t [THEN conjunct2, THEN conjunct2, THEN conjunct2, THEN conjunct2, THEN conjunct2,
               THEN conjunct1]
  note t7 = mp [OF t [THEN conjunct2, THEN conjunct2, THEN conjunct2, THEN conjunct2,
                      THEN conjunct2, THEN conjunct2] acc, rule_format]
  note p = t5 [OF l(1) f(1)] t5 [OF l(2) f(2)] t5 [OF l(3) f(3)] t5 [OF l(4) f(4)]
  note e = t7 [OF l(2) l(1) f(2) f(1)] t7 [OF l(3) l(1) f(3) f(1)] t7 [OF l(4) l(1) f(4) f(1)]
  show ?thesis
    unfolding list.pred_inject
    by (intro conjI 2 [unfolded list.pred_inject, THEN conjunct1] t4 t6 f p e TrueI)
       (use 2 in \<open>simp_all only: list.pred_inject\<close>)
qed

text \<open>
  C3. When a call of \<open>loadFromFile\<close> in a trace of main raises
  \<open>SequenceContainer::ParseException\<close>, it is the last call but one: main logs the message
  of the exception as an error and returns 1, and the trace holds no construction of a
  component of the assembly, no phase and no output.
\<close>

theorem parse_exception_aborts:
  fixes env :: "('p, 'c) env"
  assumes m: "main env argv0 ws = (st, tr)" and i: "i < length tr"
    and ld: "tr ! i = LoadFromFile c f"
    and ex: "raises env (take i tr) (tr ! i) = Some (ParseException what)"
  shows "st = Returned 1 \<and> tr = take (Suc i) tr @ [Logger_error what] \<and>
         list_all (\<lambda>e. \<not> is_assembly e) tr"
proof -
  have th: "thrown env (take i tr) (tr ! i) = Some (ParseException what)"
    using ld ex by (simp add: thrown_def)
  have "tr \<noteq> [PrintUsage argv0]"
  proof
    assume "tr = [PrintUsage argv0]"
    with i ld show False by simp
  qed
  with main_run [OF m] consider
      (config) a r1 tr1 where "run env (configure env a) [] = (r1, tr1)" "tr = tr1"
    | (loading) a tr1 r2 tr2 where "run env (configure env a) [] = (None, tr1)"
        "run env (load_sequences env a) tr1 = (r2, tr2)"
        "(\<exists>w. r2 = Some (ParseException w) \<and> tr = tr2 @ [Logger_error w] \<and> st = Returned 1)
         \<or> (r2 = Some OtherException \<and> tr = tr2)
         \<or> (r2 = None \<and> (\<exists>r3. run env (assemble env a) tr2 = (r3, tr)))"
    by blast
  then show ?thesis
  proof cases
    case config
    have "\<forall>e\<in>set tr1. e \<noteq> LoadFromFile c f"
      by (rule run_all [OF config(1)]) (simp_all add: configure_no_load)
    with config(2) i ld show ?thesis by (metis nth_mem)
  next
    case loading
    have n1: "\<forall>e\<in>set tr1. e \<noteq> LoadFromFile c f \<and> \<not> is_assembly e"
      by (rule run_all [OF loading(1)]) (simp_all add: configure_no_load configure_not_assembly)
    have n2: "\<forall>e\<in>set tr2. \<not> is_assembly e"
      by (rule run_all [OF loading(2)]) (use n1 in \<open>simp_all add: load_not_assembly\<close>)
    from run_extends [OF loading(2)] obtain es2 where tr2: "tr2 = tr1 @ es2" by blast
    have seg: "thrown env (take j tr2) (tr2 ! j) = (if Suc j = length tr2 then r2 else None)"
      if "length tr1 \<le> j" "j < length tr2" for j
      using run_thrown_at [OF loading(2) that] .
    from loading(3) consider
        (caught) w where "r2 = Some (ParseException w)" "tr = tr2 @ [Logger_error w]"
          "st = Returned 1"
      | (other) "r2 = Some OtherException" "tr = tr2"
      | (assembled) r3 where "r2 = None" "run env (assemble env a) tr2 = (r3, tr)"
      by blast
    then show ?thesis
    proof cases
      case caught
      from caught(2) i ld have i2: "i < length tr2"
        by (cases "i = length tr2") (auto simp: nth_append)
      with caught(2) have same: "tr ! i = tr2 ! i" "take i tr = take i tr2"
        by (simp_all add: nth_append)
      have i1: "length tr1 \<le> i"
      proof (rule ccontr)
        assume "\<not> length tr1 \<le> i"
        then have "tr2 ! i \<in> set tr1" using tr2 by (simp add: nth_append)
        with n1 same ld show False by auto
      qed
      from seg [OF i1 i2] th same caught(1)
      have "Suc i = length tr2" "w = what" by (auto split: if_splits)
      moreover from n2 caught(2) have "list_all (\<lambda>e. \<not> is_assembly e) tr"
        by (simp add: list_all_iff is_assembly_def)
      ultimately show ?thesis using caught by simp
    next
      case other
      with i have i2: "i < length tr2" by simp
      have i1: "length tr1 \<le> i"
      proof (rule ccontr)
        assume "\<not> length tr1 \<le> i"
        then have "tr2 ! i \<in> set tr1" using tr2 by (simp add: nth_append)
        with n1 other ld show False by auto
      qed
      from seg [OF i1 i2] th other show ?thesis by (auto split: if_splits)
    next
      case assembled
      from run_extends [OF assembled(2)] obtain es3 where tr3: "tr = tr2 @ es3" by blast
      show ?thesis
      proof (cases "i < length tr2")
        case True
        with tr3 have same: "tr ! i = tr2 ! i" "take i tr = take i tr2"
          by (simp_all add: nth_append)
        have i1: "length tr1 \<le> i"
        proof (rule ccontr)
          assume "\<not> length tr1 \<le> i"
          then have "tr2 ! i \<in> set tr1" using tr2 by (simp add: nth_append)
          with n1 same ld show False by auto
        qed
        from seg [OF i1 True] th same assembled(1) show ?thesis by (auto split: if_splits)
      next
        case False
        then have "length tr2 \<le> i" by simp
        have "tr ! i \<noteq> LoadFromFile c f"
          by (rule run_pointwise [where P = "\<lambda>h e. e \<noteq> LoadFromFile c f",
                OF assembled(2) _ \<open>length tr2 \<le> i\<close> i])
             (simp add: assemble_no_load)
        with ld show ?thesis by simp
      qed
    qed
  qed
qed

theorem parse_exception_aborts_witness:
  "main env_bad ''flye-repeat'' argv_ok = (Returned 1, snd (main env_bad ''flye-repeat'' argv_ok)) \<and>
   12 < length (snd (main env_bad ''flye-repeat'' argv_ok)) \<and>
   snd (main env_bad ''flye-repeat'' argv_ok) ! 12 = LoadFromFile SeqReads ''r2.fa'' \<and>
   raises env_bad (take 12 (snd (main env_bad ''flye-repeat'' argv_ok)))
     (snd (main env_bad ''flye-repeat'' argv_ok) ! 12) = Some (ParseException ''bad record'') \<and>
   snd (main env_bad ''flye-repeat'' argv_ok)
     = take 13 (snd (main env_bad ''flye-repeat'' argv_ok)) @ [Logger_error ''bad record''] \<and>
   list_all (\<lambda>e. \<not> is_assembly e) (snd (main env_bad ''flye-repeat'' argv_ok))"
proof -
  have 1: "main env_bad ''flye-repeat'' argv_ok = (Returned 1, snd (main env_bad ''flye-repeat'' argv_ok))"
    and 2: "12 < length (snd (main env_bad ''flye-repeat'' argv_ok))"
    and 3: "snd (main env_bad ''flye-repeat'' argv_ok) ! 12 = LoadFromFile SeqReads ''r2.fa''"
    by (simp_all add: run_bad)
  have 4: "raises env_bad (take 12 (snd (main env_bad ''flye-repeat'' argv_ok)))
     (snd (main env_bad ''flye-repeat'' argv_ok) ! 12) = Some (ParseException ''bad record'')"
    by (simp add: run_bad) (simp add: env_bad_def)
  from parse_exception_aborts [OF 1 2 3 4] 1 2 3 4 show ?thesis by simp
qed

text \<open>
  C9. \<open>reads_files\<close> is split on the comma and the files of the list are loaded, in the
  order of the list, into the one container of the reads, after the assembly has been
  loaded into its own: in every trace of main the files loaded into \<open>seqReads\<close> are an
  initial part of \<open>splitString(readsFasta, ',')\<close> (a file that fails to parse ends the
  loading), and when a call of the assembly is made, so when the reads are aligned, they
  are the whole list.
\<close>

theorem reads_loaded_in_list_order:
  fixes env :: "('p, 'c) env"
  assumes pa: "parseArgs (posixly_correct env) argv0 ws locals0 = (u, Return True a)"
    and m: "main env argv0 ws = (st, tr)"
  shows "prefix (loaded SeqReads tr) (splitString env (readsFasta a) CHR '','') \<and>
         prefix (loaded SeqAssembly tr) [inAssembly a] \<and>
         (\<forall>i<length tr. is_assembly (tr ! i) \<longrightarrow>
            loaded SeqReads (take i tr) = splitString env (readsFasta a) CHR '','' \<and>
            loaded SeqAssembly (take i tr) = [inAssembly a])"
proof -
  let ?fs = "splitString env (readsFasta a) CHR '',''"
  from main_run [OF m] pa obtain r1 tr1
    where r1: "run env (configure env a) [] = (r1, tr1)"
      and c: "(\<exists>x. r1 = Some x \<and> tr = tr1)
            \<or> (r1 = None \<and> (\<exists>r2 tr2. run env (load_sequences env a) tr1 = (r2, tr2) \<and>
                  ((\<exists>what. r2 = Some (ParseException what) \<and> tr = tr2 @ [Logger_error what])
                   \<or> (r2 = Some OtherException \<and> tr = tr2)
                   \<or> (r2 = None \<and> (\<exists>r3. run env (assemble env a) tr2 = (r3, tr))))))"
    by auto
  have n1: "\<forall>e\<in>set tr1. (\<forall>c f. e \<noteq> LoadFromFile c f) \<and> \<not> is_assembly e"
    by (rule run_all [OF r1]) (simp_all add: configure_no_load configure_not_assembly)
  have quiet: ?thesis
    if l: "loaded SeqReads tr = loaded SeqReads t" "loaded SeqAssembly tr = loaded SeqAssembly t"
      and p: "prefix (loaded SeqReads t) ?fs" "prefix (loaded SeqAssembly t) [inAssembly a]"
      and na: "\<forall>e\<in>set tr. \<not> is_assembly e" for t
    using that by (auto simp: all_set_conv_all_nth)
  from c show ?thesis
  proof (elim disjE conjE exE)
    fix x assume "r1 = Some x" "tr = tr1"
    with n1 have "loaded c tr = []" "\<forall>e\<in>set tr. \<not> is_assembly e" for c
      by (simp_all add: loaded_no_load)
    then show ?thesis by (intro quiet [of "[]"]) simp_all
  next
    fix r2 tr2 what
    assume r1n: "r1 = None" and r2: "run env (load_sequences env a) tr1 = (r2, tr2)"
      and "r2 = Some (ParseException what)" and tr: "tr = tr2 @ [Logger_error what]"
    have n2: "\<forall>e\<in>set tr2. \<not> is_assembly e"
      by (rule run_all [OF r2]) (use n1 in \<open>simp_all add: load_not_assembly\<close>)
    note la = loaded_after_loading [OF r1 [unfolded r1n] r2]
    show ?thesis
      by (rule quiet [of tr2])
         (use tr n2 la(1,2) in \<open>simp_all add: loaded_append is_assembly_def\<close>)
  next
    fix r2 tr2
    assume r1n: "r1 = None" and r2: "run env (load_sequences env a) tr1 = (r2, tr2)"
      and "r2 = Some OtherException" and tr: "tr = tr2"
    have n2: "\<forall>e\<in>set tr2. \<not> is_assembly e"
      by (rule run_all [OF r2]) (use n1 in \<open>simp_all add: load_not_assembly\<close>)
    note la = loaded_after_loading [OF r1 [unfolded r1n] r2]
    show ?thesis
      by (rule quiet [of tr2]) (use tr n2 la(1,2) in simp_all)
  next
    fix r2 tr2 r3
    assume r1n: "r1 = None" and r2: "run env (load_sequences env a) tr1 = (r2, tr2)"
      and r2n: "r2 = None" and r3: "run env (assemble env a) tr2 = (r3, tr)"
    have n2: "\<forall>e\<in>set tr2. \<not> is_assembly e"
      by (rule run_all [OF r2]) (use n1 in \<open>simp_all add: load_not_assembly\<close>)
    note la = loaded_after_loading [OF r1 [unfolded r1n] r2]
    from la(3,4) r2n have full: "loaded SeqReads tr2 = ?fs" "loaded SeqAssembly tr2 = [inAssembly a]"
      by simp_all
    from run_new [OF r3, where P = "\<lambda>e. \<forall>c f. e \<noteq> LoadFromFile c f"]
    obtain es where es: "tr = tr2 @ es" "\<forall>e\<in>set es. \<forall>c f. e \<noteq> LoadFromFile c f"
      using assemble_no_load by blast
    have quiet_es: "loaded c (take k es) = []" for c k
      by (rule loaded_no_load) (use es(2) in \<open>auto dest: in_set_takeD\<close>)
    have whole: "loaded c tr = loaded c tr2" for c
      using es quiet_es [of c "length es"] by (simp add: loaded_append)
    have at: "loaded c (take i tr) = loaded c tr2" if "i < length tr" "is_assembly (tr ! i)" for i c
    proof -
      have "length tr2 \<le> i"
      proof (rule ccontr)
        assume "\<not> length tr2 \<le> i"
        then have "tr ! i \<in> set tr2" using es(1) by (simp add: nth_append)
        with n2 that(2) show False by blast
      qed
      then have "take i tr = tr2 @ take (i - length tr2) es" using es(1) by simp
      then show ?thesis by (simp add: loaded_append quiet_es)
    qed
    from whole full at show ?thesis by simp
  qed
qed

theorem reads_loaded_in_list_order_witness:
  "splitString env_ok ''r1.fa,r2.fa'' CHR '','' = [''r1.fa'', ''r2.fa''] \<and>
   loaded SeqReads (snd (main env_ok ''flye-repeat'' argv_ok)) = [''r1.fa'', ''r2.fa''] \<and>
   prefix (loaded SeqReads (snd (main env_ok ''flye-repeat'' argv_ok)))
     (splitString env_ok ''r1.fa,r2.fa'' CHR '','') \<and>
   prefix (loaded SeqAssembly (snd (main env_ok ''flye-repeat'' argv_ok))) [''asm.fa''] \<and>
   snd (main env_ok ''flye-repeat'' argv_ok) ! 22 = Aligner_alignReads \<and>
   loaded SeqReads (take 22 (snd (main env_ok ''flye-repeat'' argv_ok)))
     = splitString env_ok ''r1.fa,r2.fa'' CHR '','' \<and>
   loaded SeqAssembly (take 22 (snd (main env_ok ''flye-repeat'' argv_ok))) = [''asm.fa'']"
proof -
  let ?tr = "snd (main env_ok ''flye-repeat'' argv_ok)"
  let ?fs = "splitString env_ok ''r1.fa,r2.fa'' CHR '',''"
  have 1: "main env_ok ''flye-repeat'' argv_ok = (Returned 0, ?tr)"
    by (simp add: run_ok)
  have 2: "22 < length ?tr" "is_assembly (?tr ! 22)" "?tr ! 22 = Aligner_alignReads"
    by (simp_all add: run_ok is_assembly_def)
  have 3: "?fs = [''r1.fa'', ''r2.fa'']"
    by (simp add: env_ok_def)
  have 4: "loaded SeqReads ?tr = [''r1.fa'', ''r2.fa'']"
    by (simp add: run_ok)
  from reads_loaded_in_list_order [OF parse_ok 1]
  have 5: "prefix (loaded SeqReads ?tr) ?fs"
    and 6: "prefix (loaded SeqAssembly ?tr) [''asm.fa'']"
    and 7: "\<forall>i<length ?tr. is_assembly (?tr ! i) \<longrightarrow>
              loaded SeqReads (take i ?tr) = ?fs \<and> loaded SeqAssembly (take i ?tr) = [''asm.fa'']"
    by simp_all
  from 7 2 have "loaded SeqReads (take 22 ?tr) = ?fs \<and> loaded SeqAssembly (take 22 ?tr) = [''asm.fa'']"
    by blast
  with 2 3 4 5 6 show ?thesis by blast
qed

end
